theory Spec2Isabelle
  imports Complex_Main
begin

section \<open>Characters and the whitespace class\<close>

text \<open>
  The program never changes the locale, so \<open>isspace\<close> and the stream extraction
  \<open>iss >> token\<close> use the classic "C" locale: the whitespace characters are space,
  horizontal tab, line feed, vertical tab, form feed and carriage return.
\<close>

definition isspace :: "char \<Rightarrow> bool" where
  "isspace c = (c = CHR 0x20 \<or> c = CHR 0x09 \<or> c = CHR 0x0A \<or> c = CHR 0x0B \<or> c = CHR 0x0C \<or> c = CHR 0x0D)"

definition dquote :: char where
  "dquote = CHR 0x22"

definition squote :: char where
  "squote = CHR 0x27"

section \<open>The tokenizer \<open>split_args\<close>\<close>

text \<open>
  \<open>iss >> token\<close> on an \<open>istringstream\<close>: skip leading whitespace, then take the
  maximal run of non-whitespace characters. The extraction fails (\<open>None\<close>) when only
  whitespace is left; the stream is then at its end and stays failed. On success the
  token is non-empty and the second component is the unread rest of the stream.
\<close>

definition read_word :: "string \<Rightarrow> (string \<times> string) option" where
  "read_word s =
     (let s1 = dropWhile isspace s
      in if s1 = [] then None
         else Some (takeWhile (\<lambda>c. \<not> isspace c) s1, dropWhile (\<lambda>c. \<not> isspace c) s1))"

lemma read_word_shorter [termination_simp]:
  "read_word s = Some (w, r) \<Longrightarrow> length r < length s"
proof -
  assume h: "read_word s = Some (w, r)"
  let ?s1 = "dropWhile isspace s"
  from h have ne: "?s1 \<noteq> []" and r: "r = dropWhile (\<lambda>c. \<not> isspace c) ?s1"
    by (auto simp: read_word_def Let_def split: if_splits)
  from ne have "\<not> isspace (hd ?s1)"
    using hd_dropWhile by blast
  with ne have "length r < length ?s1"
    unfolding r by (cases ?s1) (auto intro: le_imp_less_Suc length_dropWhile_le)
  also have "length ?s1 \<le> length s"
    by (rule length_dropWhile_le)
  finally show ?thesis .
qed

text \<open>
  The inner loop of \<open>split_args\<close>:
  \<^verbatim>\<open>while (iss >> rest) { token += " " + rest;
                         if (!rest.empty() && rest.back() == quote) break; }\<close>
  It returns the grown token and the unread rest of the stream (empty once an extraction
  has failed).
\<close>

function absorb :: "char \<Rightarrow> string \<Rightarrow> string \<Rightarrow> string \<times> string" where
  "absorb quote token s =
     (case read_word s of
        None \<Rightarrow> (token, [])
      | Some (rest, s') \<Rightarrow>
          (let token' = token @ '' '' @ rest
           in if rest \<noteq> [] \<and> last rest = quote then (token', s')
              else absorb quote token' s'))"
  by pat_completeness auto
termination
  by (relation "measure (\<lambda>(quote, token, s). length s)") (auto simp: read_word_shorter)

declare absorb.simps [simp del]

lemma absorb_rest_le: "length (snd (absorb quote token s)) \<le> length s"
proof (induction quote token s rule: absorb.induct)
  case (1 quote token s)
  show ?case
  proof (cases "read_word s")
    case None
    then show ?thesis by (subst absorb.simps) simp
  next
    case (Some p)
    obtain rest s' where p: "p = (rest, s')" by (cases p)
    have lt: "length s' < length s"
      using Some p by (simp add: read_word_shorter)
    show ?thesis
    proof (cases "rest \<noteq> [] \<and> last rest = quote")
      case True
      then show ?thesis using Some p lt by (subst absorb.simps) (simp add: Let_def)
    next
      case False
      with 1 [OF Some p [symmetric] refl False]
      have "length (snd (absorb quote (token @ '' '' @ rest) s')) \<le> length s'" by simp
      then show ?thesis using Some p lt False by (subst absorb.simps) (auto simp: Let_def)
    qed
  qed
qed

text \<open>
  The test that sends a token into the inner loop, and the stripping applied to every
  token before it is pushed:
  \<^verbatim>\<open>(token.front() == '"' && token.back() != '"') ||
  (token.front() == '\'' && token.back() != '\'')\<close> and
  \<^verbatim>\<open>token.size() >= 2 && ((front == '"' && back == '"') || (front == '\'' && back == '\''))\<close>
  with \<open>token.substr(1, token.size()-2)\<close>.
\<close>

definition opens_quote :: "string \<Rightarrow> bool" where
  "opens_quote token =
     ((hd token = dquote \<and> last token \<noteq> dquote) \<or> (hd token = squote \<and> last token \<noteq> squote))"

definition strip_quotes :: "string \<Rightarrow> string" where
  "strip_quotes token =
     (if length token \<ge> 2 \<and>
         ((hd token = dquote \<and> last token = dquote) \<or> (hd token = squote \<and> last token = squote))
      then take (length token - 2) (drop 1 token)
      else token)"

function split_loop :: "string \<Rightarrow> string list \<Rightarrow> string list" where
  "split_loop s out =
     (case read_word s of
        None \<Rightarrow> out
      | Some (token, s1) \<Rightarrow>
          (let (token2, s2) = (if opens_quote token then absorb (hd token) token s1 else (token, s1))
           in split_loop s2 (out @ [strip_quotes token2])))"
  by pat_completeness auto
termination
proof (relation "measure (\<lambda>(s, out). length s)", goal_cases)
  case 1
  show ?case by simp
next
  case (2 s out p token s1 q token2 s2)
  from 2 have "read_word s = Some (token, s1)" by simp
  then have "length s1 < length s"
    by (rule read_word_shorter)
  moreover have "length s2 \<le> length s1"
    using 2 absorb_rest_le [of "hd token" token s1]
    by (cases "opens_quote token") (auto simp: snd_def split: prod.splits)
  ultimately show ?case by simp
qed

declare split_loop.simps [simp del]

definition split_args :: "string \<Rightarrow> string list" where
  "split_args s = split_loop s []"

section \<open>Alias substitution\<close>

text \<open>
  \<open>line.find_first_of(chars)\<close>: the index of the first character of \<open>line\<close> that
  occurs in \<open>chars\<close>, or \<open>npos\<close> (\<open>None\<close>) when there is none.
\<close>

definition find_first_of :: "string \<Rightarrow> string \<Rightarrow> nat option" where
  "find_first_of line chars =
     (let n = length (takeWhile (\<lambda>c. c \<notin> set chars) line)
      in if n < length line then Some n else None)"

text \<open>
  \<open>substitute_aliases\<close> reads the global \<open>alias_map\<close>, a \<open>map<string,string>\<close>; the
  model takes it as a partial function. The argument of \<open>find_first_of\<close> in the source
  is the two characters space and horizontal tab.
\<close>

definition substitute_aliases :: "(string \<rightharpoonup> string) \<Rightarrow> string \<Rightarrow> string" where
  "substitute_aliases alias_map line =
     (case split_args line of
        [] \<Rightarrow> line
      | a0 # others \<Rightarrow>
          (case alias_map a0 of
             None \<Rightarrow> line
           | Some cmd \<Rightarrow>
               (let rest =
                      (if length (a0 # others) > 1
                       then (case find_first_of line [CHR 0x20, CHR 0x09] of
                               Some pos \<Rightarrow> drop (pos + 1) line
                             | None \<Rightarrow> [])
                       else [])
                in cmd @ (if rest = [] then [] else '' '' @ rest))))"

section \<open>Session state, console output and the embedded handlers\<close>

text \<open>
  The globals \<open>history_buf\<close> and \<open>alias_map\<close>. The third global, \<open>bookmarks\<close>, is
  touched only by the bookmark handlers, which are not embedded.
\<close>

record shell =
  history_buf :: "string list"
  alias_map :: "string \<rightharpoonup> string"

text \<open>
  What one command does to the outside world, in order: text written to \<open>cout\<close>, text
  written to \<open>cerr\<close>, the call of a built-in handler whose body is not embedded (its
  output, its effect on the operating system and whether it returns are outside the
  model; none of these handlers mentions \<open>history_buf\<close> or \<open>alias_map\<close>), and the
  fallback \<open>popen(line)\<close>.
\<close>

datatype event = Stdout string | Stderr string | Handler string "string list" | Popen string

datatype MTColor =
  RESET | BOLD | DIM | MINT_GREEN | BRIGHT_GREEN | CYAN | BLUE | MAGENTA | ORANGE | YELLOW
  | RED | GRAY

definition esc :: char where
  "esc = CHR 0x1B"

fun mt_code :: "MTColor \<Rightarrow> string" where
  "mt_code RESET = esc # ''[0m''"
| "mt_code BOLD = esc # ''[1m''"
| "mt_code DIM = esc # ''[2m''"
| "mt_code MINT_GREEN = esc # ''[38;5;121m''"
| "mt_code BRIGHT_GREEN = esc # ''[92m''"
| "mt_code CYAN = esc # ''[36m''"
| "mt_code BLUE = esc # ''[34m''"
| "mt_code MAGENTA = esc # ''[35m''"
| "mt_code ORANGE = esc # ''[38;5;214m''"
| "mt_code YELLOW = esc # ''[33m''"
| "mt_code RED = esc # ''[31m''"
| "mt_code GRAY = esc # ''[90m''"

definition colorize :: "MTColor \<Rightarrow> string \<Rightarrow> string" where
  "colorize c s = mt_code c @ s @ mt_code RESET"

definition newline :: string where
  "newline = [CHR 0x0A]"

text \<open>Decimal output of an unsigned integer, as \<open>cout << i+1\<close> prints it.\<close>

fun decimal :: "nat \<Rightarrow> string" where
  "decimal n =
     (if n < 10 then [char_of (48 + n)]
      else decimal (n div 10) @ [char_of (48 + n mod 10)])"

declare decimal.simps [simp del]

text \<open>
  \<^verbatim>\<open>for (size_t i = 1; i < a.size(); ++i) { if (i > 1) cout << ' '; cout << a[i]; }
  cout << '\n';\<close>
\<close>

fun echo_text :: "string list \<Rightarrow> string" where
  "echo_text [] = []"
| "echo_text [x] = x"
| "echo_text (x # y # ys) = x @ '' '' @ echo_text (y # ys)"

definition cmd_echo :: "string list \<Rightarrow> event list" where
  "cmd_echo a = [Stdout (echo_text (drop 1 a) @ newline)]"

text \<open>
  \<^verbatim>\<open>if (a.size() > 1 && a[1] == "-c") { history_buf.clear(); cout << "history cleared\n"; return; }
  for (size_t i = 0; i < history_buf.size(); ++i)
      cout << i+1 << "  " << history_buf[i] << '\n';\<close>
  One \<open>Stdout\<close> event stands for one printed line.
\<close>

definition history_lines :: "string list \<Rightarrow> event list" where
  "history_lines h =
     map (\<lambda>i. Stdout (decimal (i + 1) @ ''  '' @ h ! i @ newline)) [0 ..< length h]"

definition cmd_history :: "shell \<Rightarrow> string list \<Rightarrow> shell \<times> event list" where
  "cmd_history st a =
     (if length a > 1 \<and> a ! 1 = ''-c''
      then (st\<lparr>history_buf := []\<rparr>, [Stdout (''history cleared'' @ newline)])
      else (st, history_lines (history_buf st)))"

text \<open>
  \<open>cmd_alias\<close>: \<open>s.find('=')\<close>, \<open>s.substr(0, pos)\<close>, \<open>s.substr(pos+1)\<close>, the same
  stripping of one pair of surrounding quotes as in the tokenizer, and
  \<open>alias_map[name] = cmd\<close>.
\<close>

definition cmd_alias :: "shell \<Rightarrow> string list \<Rightarrow> shell \<times> event list" where
  "cmd_alias st a =
     (if length a < 2
      then (st, [Stderr (colorize YELLOW (''alias: usage alias name='' @ [squote] @ ''command'' @ [squote] @ newline))])
      else
        (let s = a ! 1
         in case find_first_of s ''='' of
              None \<Rightarrow> (st, [Stderr (colorize YELLOW (''alias: need name=command'' @ newline))])
            | Some pos \<Rightarrow>
                (let name = take pos s;
                     cmd = strip_quotes (drop (pos + 1) s)
                 in (st\<lparr>alias_map := (alias_map st)(name \<mapsto> cmd)\<rparr>,
                     [Stdout (''alias '' @ colorize MINT_GREEN name @ '' -> '' @ cmd @ newline)]))))"

definition cmd_unalias :: "shell \<Rightarrow> string list \<Rightarrow> shell \<times> event list" where
  "cmd_unalias st a =
     (if length a < 2
      then (st, [Stderr (colorize YELLOW (''unalias: usage unalias name'' @ newline))])
      else
        (case alias_map st (a ! 1) of
           None \<Rightarrow> (st, [Stderr (colorize YELLOW (''unalias: not found'' @ newline))])
         | Some v \<Rightarrow>
             (st\<lparr>alias_map := (alias_map st)(a ! 1 := None)\<rparr>,
              [Stdout (''unalias: removed'' @ newline)])))"

section \<open>The main loop\<close>

text \<open>
  The names of the \<open>else if (cmd == ...)\<close> chain of \<open>main\<close> whose handlers are not
  embedded, in the order of the chain. \<open>exit\<close>, \<open>quit\<close>, \<open>echo\<close>, \<open>history\<close>,
  \<open>alias\<close> and \<open>unalias\<close> are treated by \<open>dispatch\<close> itself. For \<open>tail\<close> the chain
  chooses between \<open>cmd_tailf\<close> and \<open>cmd_tail\<close>; the follower is modelled on its own
  below.
\<close>

definition other_builtins :: "string list" where
  "other_builtins =
     [''help'', ''ls'', ''pwd'', ''cd'', ''cat'', ''edit'', ''mkdir'', ''rm'', ''rmdir'',
      ''touch'', ''cp'', ''mv'', ''find'', ''tree'', ''ps'', ''df'', ''whoami'', ''date'',
      ''clear'', ''grep'', ''wc'', ''head'', ''tail'', ''chmod'', ''ln'', ''du'', ''sort'',
      ''uniq'', ''which'', ''open'', ''env'', ''setenv'', ''stat'', ''count'', ''aliases'',
      ''uptime'', ''ping'', ''hash'', ''compress'', ''extract'', ''calc'', ''random'',
      ''bookmark'', ''bookmarks'', ''unbookmark'', ''goto'', ''replace'', ''top'', ''net'',
      ''notify'']"

datatype control = Continue | Break

text \<open>
  The dispatch of \<open>main\<close> on \<open>args[0]\<close>; it is only reached with a non-empty \<open>args\<close>.
  The last branch hands the whole line to \<open>popen\<close>.
\<close>

definition dispatch :: "shell \<Rightarrow> string list \<Rightarrow> string \<Rightarrow> shell \<times> event list \<times> control" where
  "dispatch st args line =
     (let cmd = hd args
      in if cmd = ''exit'' \<or> cmd = ''quit'' then (st, [], Break)
         else if cmd = ''echo'' then (st, cmd_echo args, Continue)
         else if cmd = ''history'' then
           (let (st', ev) = cmd_history st args in (st', ev, Continue))
         else if cmd = ''alias'' then
           (let (st', ev) = cmd_alias st args in (st', ev, Continue))
         else if cmd = ''unalias'' then
           (let (st', ev) = cmd_unalias st args in (st', ev, Continue))
         else if cmd \<in> set other_builtins then (st, [Handler cmd args], Continue)
         else (st, [Popen line], Continue))"

text \<open>
  One turn of the loop after \<open>getline(cin, line)\<close> has succeeded (the prompt is not
  modelled):
  \<^verbatim>\<open>if (line.empty()) continue;
  line = substitute_aliases(line);
  history_buf.push_back(line);
  auto args = split_args(line);
  if (args.empty()) continue;\<close>
  followed by the dispatch.
\<close>

definition main_step :: "shell \<Rightarrow> string \<Rightarrow> shell \<times> event list \<times> control" where
  "main_step st line0 =
     (if line0 = [] then (st, [], Continue)
      else
        (let line = substitute_aliases (alias_map st) line0;
             st1 = st\<lparr>history_buf := history_buf st @ [line]\<rparr>;
             args = split_args line
         in if args = [] then (st1, [], Continue)
            else dispatch st1 args line))"

text \<open>
  A session: the lines typed, in order; the loop ends at \<open>exit\<close>/\<open>quit\<close> or when the
  input ends. The result is the final state and, for every line read, what it emitted.
\<close>

fun main_loop :: "shell \<Rightarrow> string list \<Rightarrow> shell \<times> event list list" where
  "main_loop st [] = (st, [])"
| "main_loop st (line # lines) =
     (case main_step st line of
        (st', ev, Break) \<Rightarrow> (st', [ev])
      | (st', ev, Continue) \<Rightarrow>
          (let (st'', evs) = main_loop st' lines in (st'', ev # evs)))"

definition fresh :: shell where
  "fresh = \<lparr>history_buf = [], alias_map = Map.empty\<rparr>"

section \<open>The file follower \<open>cmd_tailf\<close>\<close>

text \<open>
  The files the handler can open, by name, with their bytes. The \<open>tail\<close> branch of
  \<open>main\<close> calls the follower when
  \<^verbatim>\<open>args.size() > 1 && args[1] == "-f"\<close>.
\<close>

type_synonym filesystem = "string \<rightharpoonup> string"

definition tail_follows :: "string list \<Rightarrow> bool" where
  "tail_follows args = (length args > 1 \<and> args ! 1 = ''-f'')"

text \<open>
  \<open>while (getline(file, line))\<close> over the bytes from the read position: each call takes
  the characters up to the next line feed and consumes the line feed; a last line
  without line feed is still returned; the call fails once nothing is left.
\<close>

function getlines :: "string \<Rightarrow> string list" where
  "getlines s =
     (if s = [] then []
      else takeWhile (\<lambda>c. c \<noteq> CHR 0x0A) s # getlines (drop 1 (dropWhile (\<lambda>c. c \<noteq> CHR 0x0A) s)))"
  by pat_completeness auto
termination
proof (relation "measure length", goal_cases)
  case 1
  show ?case by simp
next
  case (2 s)
  have "length (dropWhile (\<lambda>c. c \<noteq> CHR 0x0A) s) \<le> length s"
    by (rule length_dropWhile_le)
  with 2 show ?case by (cases s) auto
qed

declare getlines.simps [simp del]

text \<open>
  The handler either returns after a diagnostic, or opens the file, prints the catch-up
  lines and enters \<open>while (true)\<close>, which it never leaves: \<open>Following\<close> carries the name
  of the file that was opened, the start offset and the catch-up output, and stands for
  a call that does not return. The file name is \<open>a[1]\<close>:
  \<^verbatim>\<open>if (a.size() < 2) { ... "tail -f: missing file\n" ...; return; }
  const string fname = a[1];
  std::ifstream file(fname, std::ios::binary);
  if (!file) { ... "tail -f: cannot open file\n" ...; return; }
  file.seekg(0, ios::end);  std::streamoff pos_off = file.tellg();
  std::streamoff start_off = 0;
  if (pos_off > 4096) start_off = pos_off - 4096;
  file.seekg(start_off, ios::beg);
  while (getline(file, line)) cout << line << '\n';\<close>
\<close>

datatype outcome = Returned "event list" | Following string nat "event list"

definition cmd_tailf :: "filesystem \<Rightarrow> string list \<Rightarrow> outcome" where
  "cmd_tailf fs a =
     (if length a < 2
      then Returned [Stderr (colorize YELLOW (''tail -f: missing file'' @ newline))]
      else
        (let fname = a ! 1
         in case fs fname of
              None \<Rightarrow> Returned [Stderr (colorize RED (''tail -f: cannot open file'' @ newline))]
            | Some bytes \<Rightarrow>
                (let pos_off = length bytes;
                     start_off = (if pos_off > 4096 then pos_off - 4096 else 0)
                 in Following fname start_off
                      (map (\<lambda>l. Stdout (l @ newline)) (getlines (drop start_off bytes))))))"

text \<open>A directory that holds the single file \<open>app.log\<close> with the lines \<open>A\<close> and \<open>B\<close>.\<close>

definition log_files :: filesystem where
  "log_files = [''app.log'' \<mapsto> ''A'' @ newline @ ''B'' @ newline]"

section \<open>The expression evaluator\<close>

text \<open>
  The evaluator computes with C++ \<open>double\<close> values and reads literals with the library
  function \<open>strtod\<close>. Neither is code of the program, so the three parse functions take
  them as a parameter: the four arithmetic operators, the constants \<open>1\<close>, \<open>-1\<close> and
  \<open>0.0\<close> that the source writes, and \<open>strtod\<close>, which returns the value read and the
  number of characters it consumed (\<open>end - expr_ptr\<close>; zero when no conversion was
  made).
\<close>

record 'd double_ops =
  d_add :: "'d \<Rightarrow> 'd \<Rightarrow> 'd"
  d_sub :: "'d \<Rightarrow> 'd \<Rightarrow> 'd"
  d_mul :: "'d \<Rightarrow> 'd \<Rightarrow> 'd"
  d_div :: "'d \<Rightarrow> 'd \<Rightarrow> 'd"
  d_one :: 'd
  d_neg_one :: 'd
  d_zero :: 'd
  strtod :: "string \<Rightarrow> 'd \<times> nat"

text \<open>
  The cursor \<open>expr_ptr\<close> is modelled by the text that is left to read; the terminating
  NUL of the C string is the empty text, where every test on \<open>*expr_ptr\<close> fails.
  \<open>skip_space\<close> is \<^verbatim>\<open>while (isspace(*expr_ptr)) ++expr_ptr;\<close> and \<open>at_char c\<close> is
  the test \<^verbatim>\<open>*expr_ptr == c\<close>.
\<close>

definition skip_space :: "string \<Rightarrow> string" where
  "skip_space s = dropWhile isspace s"

definition at_char :: "char \<Rightarrow> string \<Rightarrow> bool" where
  "at_char c s = (case s of [] \<Rightarrow> False | x # xs \<Rightarrow> x = c)"

text \<open>
  \<^verbatim>\<open>double sign = 1;
  if (*expr_ptr == '+') { ++expr_ptr; }
  else if (*expr_ptr == '-') { sign = -1; ++expr_ptr; }\<close>
\<close>

definition read_sign :: "'d double_ops \<Rightarrow> string \<Rightarrow> 'd \<times> string" where
  "read_sign ops s =
     (if at_char CHR ''+'' s then (d_one ops, tl s)
      else if at_char CHR ''-'' s then (d_neg_one ops, tl s)
      else (d_one ops, s))"

lemma skip_space_le: "length (skip_space s) \<le> length s"
  by (simp add: skip_space_def length_dropWhile_le)

lemma read_sign_le: "length (snd (read_sign ops s)) \<le> length s"
  by (simp add: read_sign_def)

lemma at_char_tl_less: "at_char c s \<Longrightarrow> length (tl s) < length s"
  by (cases s) (simp_all add: at_char_def)

text \<open>
  \<open>parse_number\<close>, \<open>parse_term\<close> and \<open>parse_expression\<close> as in the source; every
  function returns its value together with the cursor it leaves. The two
  \<open>while (true)\<close> loops are \<open>term_loop\<close> and \<open>expr_loop\<close>, which carry the accumulated
  value \<open>v\<close>; they end at \<open>break\<close>, with the cursor after the skipped whitespace.
  In \<open>parse_number\<close>:
  \<^verbatim>\<open>if (*expr_ptr == '(') { ++expr_ptr; double v = parse_expression();
                          if (*expr_ptr == ')') ++expr_ptr; return sign * v; }
  char *end; double val = strtod(expr_ptr, &end);
  if (end == expr_ptr) return 0.0;
  expr_ptr = end; return sign * val;\<close>
\<close>

function parse_number :: "'d double_ops \<Rightarrow> string \<Rightarrow> 'd \<times> string"
  and parse_term :: "'d double_ops \<Rightarrow> string \<Rightarrow> 'd \<times> string"
  and term_loop :: "'d double_ops \<Rightarrow> 'd \<Rightarrow> string \<Rightarrow> 'd \<times> string"
  and parse_expression :: "'d double_ops \<Rightarrow> string \<Rightarrow> 'd \<times> string"
  and expr_loop :: "'d double_ops \<Rightarrow> 'd \<Rightarrow> string \<Rightarrow> 'd \<times> string"
where
  "parse_number ops s =
     (let (sign, s2) = read_sign ops (skip_space s);
          s3 = skip_space s2
      in if at_char CHR ''('' s3
         then (let (v, s4) = parse_expression ops (tl s3);
                   s5 = (if at_char CHR '')'' s4 then tl s4 else s4)
               in (d_mul ops sign v, s5))
         else (let (val, n) = strtod ops s3
               in if n = 0 then (d_zero ops, s3)
                  else (d_mul ops sign val, drop n s3)))"
| "parse_term ops s = (let (v, s1) = parse_number ops s in term_loop ops v s1)"
| "term_loop ops v s =
     (let s1 = skip_space s
      in if at_char CHR ''*'' s1
         then (let (w, s2) = parse_number ops (tl s1) in term_loop ops (d_mul ops v w) s2)
         else if at_char CHR ''/'' s1
         then (let (w, s2) = parse_number ops (tl s1) in term_loop ops (d_div ops v w) s2)
         else (v, s1))"
| "parse_expression ops s = (let (v, s1) = parse_term ops s in expr_loop ops v s1)"
| "expr_loop ops v s =
     (let s1 = skip_space s
      in if at_char CHR ''+'' s1
         then (let (w, s2) = parse_term ops (tl s1) in expr_loop ops (d_add ops v w) s2)
         else if at_char CHR ''-'' s1
         then (let (w, s2) = parse_term ops (tl s1) in expr_loop ops (d_sub ops v w) s2)
         else (v, s1))"
  by pat_completeness auto

text \<open>
  Wherever the functions are defined, the cursor they return is not longer than the one
  they were given; this is what makes the loops and the recursion through the
  parenthesis terminate.
\<close>

lemma cursor_le_partial:
  shows "parse_number_parse_term_term_loop_parse_expression_expr_loop_dom (Inl (Inl (ops, s)))
         \<Longrightarrow> length (snd (parse_number ops s)) \<le> length s"
    and "parse_number_parse_term_term_loop_parse_expression_expr_loop_dom (Inl (Inr (ops, s)))
         \<Longrightarrow> length (snd (parse_term ops s)) \<le> length s"
    and "parse_number_parse_term_term_loop_parse_expression_expr_loop_dom (Inr (Inl (ops, v, s)))
         \<Longrightarrow> length (snd (term_loop ops v s)) \<le> length s"
    and "parse_number_parse_term_term_loop_parse_expression_expr_loop_dom (Inr (Inr (Inl (ops, s))))
         \<Longrightarrow> length (snd (parse_expression ops s)) \<le> length s"
    and "parse_number_parse_term_term_loop_parse_expression_expr_loop_dom (Inr (Inr (Inr (ops, v, s))))
         \<Longrightarrow> length (snd (expr_loop ops v s)) \<le> length s"
proof (induct rule: parse_number_parse_term_term_loop_parse_expression_expr_loop.pinduct)
  case (1 ops s)
  obtain sign s2 where rs: "read_sign ops (skip_space s) = (sign, s2)"
    by (cases "read_sign ops (skip_space s)")
  have s2: "length s2 \<le> length s"
    using read_sign_le [of ops "skip_space s"] skip_space_le [of s] rs by simp
  have s3: "length (skip_space s2) \<le> length s"
    using skip_space_le [of s2] s2 by simp
  show ?case
  proof (cases "at_char CHR ''('' (skip_space s2)")
    case True
    obtain v s4 where pe: "parse_expression ops (tl (skip_space s2)) = (v, s4)"
      by (cases "parse_expression ops (tl (skip_space s2))")
    have "length (snd (parse_expression ops (tl (skip_space s2)))) \<le> length (tl (skip_space s2))"
      using "1.hyps"(2) [OF rs [symmetric] refl refl True] .
    with pe have "length s4 \<le> length s" using s3 by simp
    then have "length (if at_char CHR '')'' s4 then tl s4 else s4) \<le> length s"
      by auto
    then show ?thesis
      using "1.hyps"(1) rs True pe by (simp add: parse_number.psimps Let_def)
  next
    case False
    then show ?thesis
      using "1.hyps"(1) rs s3 by (auto simp: parse_number.psimps Let_def split: prod.splits)
  qed
next
  case (2 ops s)
  obtain v s1 where pn: "parse_number ops s = (v, s1)" by (cases "parse_number ops s")
  from "2.hyps"(2) pn have "length s1 \<le> length s" by simp
  moreover from "2.hyps"(3) [OF refl pn [symmetric]]
  have "length (snd (term_loop ops v s1)) \<le> length s1" .
  ultimately show ?case using "2.hyps"(1) pn by (simp add: parse_term.psimps)
next
  case (3 ops v s)
  let ?s1 = "skip_space s"
  have s1: "length ?s1 \<le> length s" by (rule skip_space_le)
  show ?case
  proof (cases "at_char CHR ''*'' ?s1")
    case True
    obtain w s2 where pn: "parse_number ops (tl ?s1) = (w, s2)"
      by (cases "parse_number ops (tl ?s1)")
    from "3.hyps"(2) [OF refl True] pn have "length s2 \<le> length (tl ?s1)" by simp
    moreover from "3.hyps"(3) [OF refl True refl pn [symmetric]]
    have "length (snd (term_loop ops (d_mul ops v w) s2)) \<le> length s2" .
    ultimately show ?thesis
      using "3.hyps"(1) True pn s1 by (simp add: term_loop.psimps Let_def)
  next
    case nt: False
    show ?thesis
    proof (cases "at_char CHR ''/'' ?s1")
      case True
      obtain w s2 where pn: "parse_number ops (tl ?s1) = (w, s2)"
        by (cases "parse_number ops (tl ?s1)")
      from "3.hyps"(4) [OF refl nt True] pn have "length s2 \<le> length (tl ?s1)" by simp
      moreover from "3.hyps"(5) [OF refl nt True refl pn [symmetric]]
      have "length (snd (term_loop ops (d_div ops v w) s2)) \<le> length s2" .
      ultimately show ?thesis
        using "3.hyps"(1) nt True pn s1 by (simp add: term_loop.psimps Let_def)
    next
      case False
      with nt show ?thesis
        using "3.hyps"(1) s1 by (simp add: term_loop.psimps Let_def)
    qed
  qed
next
  case (4 ops s)
  obtain v s1 where pt: "parse_term ops s = (v, s1)" by (cases "parse_term ops s")
  from "4.hyps"(2) pt have "length s1 \<le> length s" by simp
  moreover from "4.hyps"(3) [OF refl pt [symmetric]]
  have "length (snd (expr_loop ops v s1)) \<le> length s1" .
  ultimately show ?case using "4.hyps"(1) pt by (simp add: parse_expression.psimps)
next
  case (5 ops v s)
  let ?s1 = "skip_space s"
  have s1: "length ?s1 \<le> length s" by (rule skip_space_le)
  show ?case
  proof (cases "at_char CHR ''+'' ?s1")
    case True
    obtain w s2 where pt: "parse_term ops (tl ?s1) = (w, s2)"
      by (cases "parse_term ops (tl ?s1)")
    from "5.hyps"(2) [OF refl True] pt have "length s2 \<le> length (tl ?s1)" by simp
    moreover from "5.hyps"(3) [OF refl True refl pt [symmetric]]
    have "length (snd (expr_loop ops (d_add ops v w) s2)) \<le> length s2" .
    ultimately show ?thesis
      using "5.hyps"(1) True pt s1 by (simp add: expr_loop.psimps Let_def)
  next
    case nt: False
    show ?thesis
    proof (cases "at_char CHR ''-'' ?s1")
      case True
      obtain w s2 where pt: "parse_term ops (tl ?s1) = (w, s2)"
        by (cases "parse_term ops (tl ?s1)")
      from "5.hyps"(4) [OF refl nt True] pt have "length s2 \<le> length (tl ?s1)" by simp
      moreover from "5.hyps"(5) [OF refl nt True refl pt [symmetric]]
      have "length (snd (expr_loop ops (d_sub ops v w) s2)) \<le> length s2" .
      ultimately show ?thesis
        using "5.hyps"(1) nt True pt s1 by (simp add: expr_loop.psimps Let_def)
    next
      case False
      with nt show ?thesis
        using "5.hyps"(1) s1 by (simp add: expr_loop.psimps Let_def)
    qed
  qed
qed


lemma read_sign_le': "(sign, s2) = read_sign ops s \<Longrightarrow> length s2 \<le> length s"
  using read_sign_le [of ops s] by (metis snd_conv)

lemma parse_number_le_partial:
  "parse_number_parse_term_term_loop_parse_expression_expr_loop_dom (Inl (Inl (ops, s)))
   \<Longrightarrow> (v, s1) = parse_number ops s \<Longrightarrow> length s1 \<le> length s"
  using cursor_le_partial(1) [of ops s] by (metis snd_conv)

lemma parse_term_le_partial:
  "parse_number_parse_term_term_loop_parse_expression_expr_loop_dom (Inl (Inr (ops, s)))
   \<Longrightarrow> (v, s1) = parse_term ops s \<Longrightarrow> length s1 \<le> length s"
  using cursor_le_partial(2) [of ops s] by (metis snd_conv)

termination parse_number
proof (relation "measures
    [(\<lambda>x. case x of Inl (Inl (ops, s)) \<Rightarrow> length s | Inl (Inr (ops, s)) \<Rightarrow> length s
           | Inr (Inl (ops, v, s)) \<Rightarrow> length s | Inr (Inr (Inl (ops, s))) \<Rightarrow> length s
           | Inr (Inr (Inr (ops, v, s))) \<Rightarrow> length s),
     (\<lambda>x. case x of Inl (Inl (ops, s)) \<Rightarrow> 0 | Inl (Inr (ops, s)) \<Rightarrow> 1
           | Inr (Inl (ops, v, s)) \<Rightarrow> 0 | Inr (Inr (Inl (ops, s))) \<Rightarrow> 2
           | Inr (Inr (Inr (ops, v, s))) \<Rightarrow> (0::nat))]", goal_cases)
  case 1
  show ?case by simp
next
  case (2 ops s p sign s2 s3)
  from 2 have "length s2 \<le> length (skip_space s)"
    by (intro read_sign_le' [of sign s2 ops]) simp
  moreover from 2 have "length (tl s3) < length s3"
    by (intro at_char_tl_less [of "CHR ''(''"]) simp
  ultimately show ?case
    using 2 skip_space_le [of s] skip_space_le [of s2] by simp
next
  case (3 ops s)
  show ?case by simp
next
  case (4 ops s p v s1)
  then have "length s1 \<le> length s"
    by (intro parse_number_le_partial [of ops s v s1]) simp_all
  then show ?case by auto
next
  case (5 ops v s s1)
  then show ?case using skip_space_le [of s] at_char_tl_less [of "CHR ''*''" s1] by simp
next
  case (6 ops v s s1 p w s2)
  then have "length s2 \<le> length (tl s1)"
    by (intro parse_number_le_partial [of ops "tl s1" w s2]) simp_all
  with 6 show ?case
    using skip_space_le [of s] at_char_tl_less [of "CHR ''*''" s1] by simp
next
  case (7 ops v s s1)
  then show ?case using skip_space_le [of s] at_char_tl_less [of "CHR ''/''" s1] by simp
next
  case (8 ops v s s1 p w s2)
  then have "length s2 \<le> length (tl s1)"
    by (intro parse_number_le_partial [of ops "tl s1" w s2]) simp_all
  with 8 show ?case
    using skip_space_le [of s] at_char_tl_less [of "CHR ''/''" s1] by simp
next
  case (9 ops s)
  show ?case by simp
next
  case (10 ops s p v s1)
  then have "length s1 \<le> length s"
    by (intro parse_term_le_partial [of ops s v s1]) simp_all
  then show ?case by auto
next
  case (11 ops v s s1)
  then show ?case using skip_space_le [of s] at_char_tl_less [of "CHR ''+''" s1] by simp
next
  case (12 ops v s s1 p w s2)
  then have "length s2 \<le> length (tl s1)"
    by (intro parse_term_le_partial [of ops "tl s1" w s2]) simp_all
  with 12 show ?case
    using skip_space_le [of s] at_char_tl_less [of "CHR ''+''" s1] by simp
next
  case (13 ops v s s1)
  then show ?case using skip_space_le [of s] at_char_tl_less [of "CHR ''-''" s1] by simp
next
  case (14 ops v s s1 p w s2)
  then have "length s2 \<le> length (tl s1)"
    by (intro parse_term_le_partial [of ops "tl s1" w s2]) simp_all
  with 14 show ?case
    using skip_space_le [of s] at_char_tl_less [of "CHR ''-''" s1] by simp
qed


declare parse_number.simps [simp del] parse_term.simps [simp del] term_loop.simps [simp del]
  parse_expression.simps [simp del] expr_loop.simps [simp del]

section \<open>A model of double arithmetic and of strtod\<close>

text \<open>
  Modelled from IEEE 754 and the C standard, not from the program. A double is a
  finite value, negative zero, an infinity or not-a-number; \<open>Finite 0\<close> is positive
  zero. The operations follow the rules of IEEE 754 for signs, zeros, infinities and
  NaN. Finite results are exact rationals: rounding to 53 bits, overflow and underflow
  are not modelled, so the model agrees with binary64 where the exact result is
  representable, as it is for the small integers of the examples.
\<close>

datatype double = Finite rat | NegZero | PosInf | NegInf | NaN

fun is_neg :: "double \<Rightarrow> bool" where
  "is_neg (Finite r) = (r < 0)"
| "is_neg NegZero = True"
| "is_neg PosInf = False"
| "is_neg NegInf = True"
| "is_neg NaN = False"

fun is_zero :: "double \<Rightarrow> bool" where
  "is_zero (Finite r) = (r = 0)"
| "is_zero NegZero = True"
| "is_zero d = False"

fun is_inf :: "double \<Rightarrow> bool" where
  "is_inf PosInf = True"
| "is_inf NegInf = True"
| "is_inf d = False"

fun is_nan :: "double \<Rightarrow> bool" where
  "is_nan NaN = True"
| "is_nan d = False"

fun fin_val :: "double \<Rightarrow> rat" where
  "fin_val (Finite r) = r"
| "fin_val d = 0"

definition zero_of :: "bool \<Rightarrow> double" where
  "zero_of neg = (if neg then NegZero else Finite 0)"

definition inf_of :: "bool \<Rightarrow> double" where
  "inf_of neg = (if neg then NegInf else PosInf)"

definition mk_finite :: "bool \<Rightarrow> rat \<Rightarrow> double" where
  "mk_finite neg r = (if r = 0 then zero_of neg else Finite r)"

definition dbl_mul :: "double \<Rightarrow> double \<Rightarrow> double" where
  "dbl_mul a b =
     (if is_nan a \<or> is_nan b then NaN
      else if is_inf a \<or> is_inf b
      then (if is_zero a \<or> is_zero b then NaN else inf_of (is_neg a \<noteq> is_neg b))
      else mk_finite (is_neg a \<noteq> is_neg b) (fin_val a * fin_val b))"

definition dbl_div :: "double \<Rightarrow> double \<Rightarrow> double" where
  "dbl_div a b =
     (if is_nan a \<or> is_nan b then NaN
      else if is_inf a then (if is_inf b then NaN else inf_of (is_neg a \<noteq> is_neg b))
      else if is_inf b then zero_of (is_neg a \<noteq> is_neg b)
      else if is_zero b then (if is_zero a then NaN else inf_of (is_neg a \<noteq> is_neg b))
      else mk_finite (is_neg a \<noteq> is_neg b) (fin_val a / fin_val b))"

definition dbl_add :: "double \<Rightarrow> double \<Rightarrow> double" where
  "dbl_add a b =
     (if is_nan a \<or> is_nan b then NaN
      else if is_inf a then (if is_inf b \<and> is_neg a \<noteq> is_neg b then NaN else a)
      else if is_inf b then b
      else mk_finite (a = NegZero \<and> b = NegZero) (fin_val a + fin_val b))"

fun dbl_neg :: "double \<Rightarrow> double" where
  "dbl_neg (Finite r) = (if r = 0 then NegZero else Finite (- r))"
| "dbl_neg NegZero = Finite 0"
| "dbl_neg PosInf = NegInf"
| "dbl_neg NegInf = PosInf"
| "dbl_neg NaN = NaN"

definition dbl_sub :: "double \<Rightarrow> double \<Rightarrow> double" where
  "dbl_sub a b = dbl_add a (dbl_neg b)"

text \<open>
  \<open>strtod\<close> for the decimal form of the C standard: optional whitespace, an optional
  sign, decimal digits with an optional radix point (at least one digit), and an
  optional exponent part, which is taken only when it has a digit. The result is the
  value and the number of characters consumed, zero when there is no conversion. The
  hexadecimal form and the forms \<open>INF\<close>, \<open>INFINITY\<close> and \<open>NAN\<close> are not modelled.
\<close>

definition is_digit :: "char \<Rightarrow> bool" where
  "is_digit c = (48 \<le> (of_char c :: nat) \<and> (of_char c :: nat) \<le> 57)"

definition digits_value :: "string \<Rightarrow> nat" where
  "digits_value ds = foldl (\<lambda>n c. 10 * n + (of_char c - 48)) 0 ds"

definition strtod_dec :: "string \<Rightarrow> double \<times> nat" where
  "strtod_dec s =
     (let s1 = skip_space s;
          neg = at_char CHR ''-'' s1;
          s2 = (if at_char CHR ''+'' s1 \<or> at_char CHR ''-'' s1 then tl s1 else s1);
          ip = takeWhile is_digit s2;
          s3 = dropWhile is_digit s2;
          fp = (if at_char CHR ''.'' s3 then takeWhile is_digit (tl s3) else []);
          s4 = (if at_char CHR ''.'' s3 then dropWhile is_digit (tl s3) else s3)
      in if ip = [] \<and> fp = [] then (Finite 0, 0)
         else
           (let mant = of_nat (digits_value (ip @ fp)) / 10 ^ length fp;
                t = (if at_char CHR ''e'' s4 \<or> at_char CHR ''E'' s4 then tl s4 else s4);
                eneg = at_char CHR ''-'' t;
                t2 = (if at_char CHR ''+'' t \<or> at_char CHR ''-'' t then tl t else t);
                ed = takeWhile is_digit t2;
                has_exp = ((at_char CHR ''e'' s4 \<or> at_char CHR ''E'' s4) \<and> ed \<noteq> []);
                s5 = (if has_exp then dropWhile is_digit t2 else s4);
                scale = (if has_exp
                         then (if eneg then 1 / 10 ^ digits_value ed else 10 ^ digits_value ed)
                         else 1);
                r = mant * scale
            in (mk_finite neg (if neg then - r else r), length s - length s5)))"

text \<open>The evaluator's parameter for binary64: \<open>sign\<close> is \<open>1\<close> or \<open>-1\<close>, and \<open>0.0\<close>.\<close>

definition binary64 :: "double double_ops" where
  "binary64 = \<lparr>d_add = dbl_add, d_sub = dbl_sub, d_mul = dbl_mul, d_div = dbl_div,
      d_one = Finite 1, d_neg_one = Finite (- 1), d_zero = Finite 0, strtod = strtod_dec\<rparr>"

section \<open>The tokenizer in the words of the specification\<close>

text \<open>
  The specification describes the tokenizer on the whitespace-delimited words of the
  line rather than on the character stream. \<open>wswords\<close> are the maximal runs of
  non-whitespace characters, \<open>unwords\<close> joins strings with single spaces, \<open>spec_gather\<close>
  keeps consuming words until one ends with the opening quote, and \<open>spec_tokens\<close>
  turns the words into tokens. These follow the specification; the theorems below
  relate them to \<open>split_args\<close>.
\<close>

function wswords :: "string \<Rightarrow> string list" where
  "wswords [] = []"
| "wswords (c # cs) =
     (if isspace c then wswords cs
      else takeWhile (\<lambda>c. \<not> isspace c) (c # cs) # wswords (dropWhile (\<lambda>c. \<not> isspace c) cs))"
  by pat_completeness auto
termination
  by (relation "measure length") (auto intro: le_imp_less_Suc length_dropWhile_le)

fun unwords :: "string list \<Rightarrow> string" where
  "unwords [] = []"
| "unwords [w] = w"
| "unwords (w # v # ws) = w @ '' '' @ unwords (v # ws)"

fun spec_gather :: "char \<Rightarrow> string \<Rightarrow> string list \<Rightarrow> string \<times> string list" where
  "spec_gather q tok [] = (tok, [])"
| "spec_gather q tok (w # ws) =
     (if last w = q then (tok @ '' '' @ w, ws) else spec_gather q (tok @ '' '' @ w) ws)"

text \<open>The words left over by \<open>spec_gather\<close> are never more than it was given.\<close>

lemma spec_gather_rest_le: "length (snd (spec_gather q tok ws)) \<le> length ws"
  by (induction ws arbitrary: tok) (auto intro: le_SucI)

function spec_tokens :: "string list \<Rightarrow> string list" where
  "spec_tokens [] = []"
| "spec_tokens (w # ws) =
     (if opens_quote w
      then (let (tok, rest) = spec_gather (hd w) w ws in strip_quotes tok # spec_tokens rest)
      else strip_quotes w # spec_tokens ws)"
  by pat_completeness auto
termination
proof (relation "measure length", goal_cases)
  case (2 w ws p tok rest)
  then show ?case using spec_gather_rest_le [of "hd w" w ws] by (auto simp: snd_def split: prod.splits)
qed auto

text \<open>
  A token is taken to be quoted when its first character is a quote character; the
  empty token is not.
\<close>

definition starts_with_quote :: "string \<Rightarrow> bool" where
  "starts_with_quote t = (case t of [] \<Rightarrow> False | c # cs \<Rightarrow> c = dquote \<or> c = squote)"

section \<open>Alias substitution in the words of the specification\<close>

text \<open>
  The specification takes as the rest of an aliased line "the substring strictly after
  the first whitespace run following the first token": skip leading whitespace, skip
  the first word, skip the whitespace run after it.
\<close>

definition spec_rest :: "string \<Rightarrow> string" where
  "spec_rest line =
     dropWhile isspace (dropWhile (\<lambda>c. \<not> isspace c) (dropWhile isspace line))"

text \<open>The line \<open>alias ll='ls -l'\<close> of the specification's example.\<close>

definition alias_line :: string where
  "alias_line = ''alias ll='' @ [squote] @ ''ls -l'' @ [squote]"

section \<open>The session of the history example\<close>

text \<open>
  The lines \<open>echo a\<close>, \<open>echo b\<close>, \<open>history\<close>, \<open>history -c\<close>, \<open>history\<close>, typed in
  this order into a fresh session.
\<close>

definition history_session :: "string list" where
  "history_session = [''echo a'', ''echo b'', ''history'', ''history -c'', ''history'']"

section \<open>The grammar of the specification\<close>

text \<open>
  The grammar of the specification,
  \<^verbatim>\<open>expression := term (('+' | '-') term)*
  term       := number (('*' | '/') number)*
  number     := ['+' | '-'] ( '(' expression ')' | float-literal )\<close>
  as syntax trees. The repetitions are written left-nested, which is the left-to-right
  associativity the specification asks for; that multiplication and division bind
  tighter is the layering of the three types.
\<close>

datatype sign_mark = NoSign | PlusSign | MinusSign

datatype g_expr = ETerm g_term | EAdd g_expr g_term | ESub g_expr g_term
  and g_term = TNumber g_number | TMul g_term g_number | TDiv g_term g_number
  and g_number = NLiteral sign_mark string | NParen sign_mark g_expr

text \<open>
  The text of a tree; \<open>sp\<close> is the whitespace written on both sides of every binary
  operator.
\<close>

fun sign_text :: "sign_mark \<Rightarrow> string" where
  "sign_text NoSign = []"
| "sign_text PlusSign = ''+''"
| "sign_text MinusSign = ''-''"

fun sign_value :: "'d double_ops \<Rightarrow> sign_mark \<Rightarrow> 'd" where
  "sign_value ops NoSign = d_one ops"
| "sign_value ops PlusSign = d_one ops"
| "sign_value ops MinusSign = d_neg_one ops"

fun render_expr :: "string \<Rightarrow> g_expr \<Rightarrow> string"
  and render_term :: "string \<Rightarrow> g_term \<Rightarrow> string"
  and render_number :: "string \<Rightarrow> g_number \<Rightarrow> string"
where
  "render_expr sp (ETerm t) = render_term sp t"
| "render_expr sp (EAdd e t) = render_expr sp e @ sp @ ''+'' @ sp @ render_term sp t"
| "render_expr sp (ESub e t) = render_expr sp e @ sp @ ''-'' @ sp @ render_term sp t"
| "render_term sp (TNumber n) = render_number sp n"
| "render_term sp (TMul t n) = render_term sp t @ sp @ ''*'' @ sp @ render_number sp n"
| "render_term sp (TDiv t n) = render_term sp t @ sp @ ''/'' @ sp @ render_number sp n"
| "render_number sp (NLiteral sg lit) = sign_text sg @ lit"
| "render_number sp (NParen sg e) = sign_text sg @ ''('' @ render_expr sp e @ '')''"

text \<open>
  The value of a tree. A number is its literal or parenthesised value multiplied by the
  sign, \<open>1\<close> when no sign is written.
\<close>

fun eval_expr :: "'d double_ops \<Rightarrow> g_expr \<Rightarrow> 'd"
  and eval_term :: "'d double_ops \<Rightarrow> g_term \<Rightarrow> 'd"
  and eval_number :: "'d double_ops \<Rightarrow> g_number \<Rightarrow> 'd"
where
  "eval_expr ops (ETerm t) = eval_term ops t"
| "eval_expr ops (EAdd e t) = d_add ops (eval_expr ops e) (eval_term ops t)"
| "eval_expr ops (ESub e t) = d_sub ops (eval_expr ops e) (eval_term ops t)"
| "eval_term ops (TNumber n) = eval_number ops n"
| "eval_term ops (TMul t n) = d_mul ops (eval_term ops t) (eval_number ops n)"
| "eval_term ops (TDiv t n) = d_div ops (eval_term ops t) (eval_number ops n)"
| "eval_number ops (NLiteral sg lit) = d_mul ops (sign_value ops sg) (fst (strtod ops lit))"
| "eval_number ops (NParen sg e) = d_mul ops (sign_value ops sg) (eval_expr ops e)"

text \<open>
  A float-literal is a text that does not begin with whitespace, a sign or a
  parenthesis and that \<open>strtod\<close> reads completely, and to the same value, whenever it
  is followed by the end of the text, whitespace, an operator or a closing parenthesis.
  A tree is well formed when its literals are float-literals.
\<close>

definition follower :: "string \<Rightarrow> bool" where
  "follower r = (case r of [] \<Rightarrow> True | c # cs \<Rightarrow> isspace c \<or> c \<in> set ''+-*/)'')"

definition float_literal :: "'d double_ops \<Rightarrow> string \<Rightarrow> bool" where
  "float_literal ops lit =
     (lit \<noteq> [] \<and> \<not> isspace (hd lit) \<and> hd lit \<notin> set ''+-(''
      \<and> (\<forall>r. follower r \<longrightarrow> strtod ops (lit @ r) = (fst (strtod ops lit), length lit)))"

fun wf_expr :: "'d double_ops \<Rightarrow> g_expr \<Rightarrow> bool"
  and wf_term :: "'d double_ops \<Rightarrow> g_term \<Rightarrow> bool"
  and wf_number :: "'d double_ops \<Rightarrow> g_number \<Rightarrow> bool"
where
  "wf_expr ops (ETerm t) = wf_term ops t"
| "wf_expr ops (EAdd e t) = (wf_expr ops e \<and> wf_term ops t)"
| "wf_expr ops (ESub e t) = (wf_expr ops e \<and> wf_term ops t)"
| "wf_term ops (TNumber n) = wf_number ops n"
| "wf_term ops (TMul t n) = (wf_term ops t \<and> wf_number ops n)"
| "wf_term ops (TDiv t n) = (wf_term ops t \<and> wf_number ops n)"
| "wf_number ops (NLiteral sg lit) = float_literal ops lit"
| "wf_number ops (NParen sg e) = wf_expr ops e"

text \<open>
  The text after a term does not continue it when, after whitespace, it does not begin
  with \<open>*\<close> or \<open>/\<close>; the text after an expression does not continue it when, after
  whitespace, it does not begin with \<open>+\<close> or \<open>-\<close>.
\<close>

definition stop_term :: "string \<Rightarrow> bool" where
  "stop_term r = (\<not> at_char CHR ''*'' (skip_space r) \<and> \<not> at_char CHR ''/'' (skip_space r))"

definition stop_expr :: "string \<Rightarrow> bool" where
  "stop_expr r = (\<not> at_char CHR ''+'' (skip_space r) \<and> \<not> at_char CHR ''-'' (skip_space r))"

text \<open>
  The trees of \<open>2 + 3 * 4\<close>, of \<open>(2 + 3) * 4\<close> and of \<open>8-2-1\<close>.
\<close>

definition tree_2_plus_3_times_4 :: g_expr where
  "tree_2_plus_3_times_4 =
     EAdd (ETerm (TNumber (NLiteral NoSign ''2'')))
          (TMul (TNumber (NLiteral NoSign ''3'')) (NLiteral NoSign ''4''))"

definition tree_paren_2_plus_3_times_4 :: g_expr where
  "tree_paren_2_plus_3_times_4 =
     ETerm (TMul (TNumber (NParen NoSign
                    (EAdd (ETerm (TNumber (NLiteral NoSign ''2'')))
                          (TNumber (NLiteral NoSign ''3'')))))
                 (NLiteral NoSign ''4''))"

definition tree_8_minus_2_minus_1 :: g_expr where
  "tree_8_minus_2_minus_1 =
     ESub (ESub (ETerm (TNumber (NLiteral NoSign ''8''))) (TNumber (NLiteral NoSign ''2'')))
          (TNumber (NLiteral NoSign ''1''))"

section \<open>Facts about the tokenizer\<close>

lemma read_word_Nil [simp]: "read_word [] = None"
  by (simp add: read_word_def)

lemma read_word_space: "isspace c \<Longrightarrow> read_word (c # cs) = read_word cs"
  by (simp add: read_word_def)

lemma read_word_nonspace:
  "\<not> isspace c \<Longrightarrow>
   read_word (c # cs) = Some (c # takeWhile (\<lambda>c. \<not> isspace c) cs, dropWhile (\<lambda>c. \<not> isspace c) cs)"
  by (simp add: read_word_def)

lemma read_word_nonempty: "read_word s = Some (w, r) \<Longrightarrow> w \<noteq> []"
proof (induction s)
  case (Cons c cs)
  then show ?case by (cases "isspace c") (auto simp: read_word_space read_word_nonspace)
qed simp

lemma read_word_None_words: "read_word s = None \<Longrightarrow> wswords s = []"
proof (induction s)
  case (Cons c cs)
  then show ?case by (cases "isspace c") (auto simp: read_word_space read_word_nonspace)
qed simp

lemma read_word_Some_words: "read_word s = Some (w, r) \<Longrightarrow> wswords s = w # wswords r"
proof (induction s)
  case (Cons c cs)
  then show ?case by (cases "isspace c") (auto simp: read_word_space read_word_nonspace)
qed simp

lemma absorb_spec_gather:
  "absorb q tok s = (tok', r) \<Longrightarrow> spec_gather q tok (wswords s) = (tok', wswords r)"
proof (induction q tok s arbitrary: tok' r rule: absorb.induct)
  case (1 quote token s)
  show ?case
  proof (cases "read_word s")
    case None
    with "1.prems" show ?thesis
      by (subst (asm) absorb.simps) (auto simp: read_word_None_words)
  next
    case (Some p)
    obtain rest s' where p: "p = (rest, s')" by (cases p)
    note rw = Some [unfolded p]
    have ne: "rest \<noteq> []" using rw by (rule read_word_nonempty)
    have ws: "wswords s = rest # wswords s'" using rw by (rule read_word_Some_words)
    show ?thesis
    proof (cases "last rest = quote")
      case True
      with "1.prems" rw ne ws show ?thesis
        by (subst (asm) absorb.simps) (auto simp: Let_def)
    next
      case False
      from "1.prems" rw False have "absorb quote (token @ '' '' @ rest) s' = (tok', r)"
        by (subst (asm) absorb.simps) (auto simp: Let_def)
      with "1.IH" [OF rw refl] False
      have "spec_gather quote (token @ '' '' @ rest) (wswords s') = (tok', wswords r)" by simp
      with ws False show ?thesis by simp
    qed
  qed
qed

lemma split_loop_words: "split_loop s out = out @ spec_tokens (wswords s)"
proof (induction s out rule: split_loop.induct)
  case (1 s out)
  show ?case
  proof (cases "read_word s")
    case None
    then show ?thesis by (subst split_loop.simps) (simp add: read_word_None_words)
  next
    case (Some p)
    obtain token s1 where p: "p = (token, s1)" by (cases p)
    note rw = Some [unfolded p]
    have ws: "wswords s = token # wswords s1" using rw by (rule read_word_Some_words)
    obtain token2 s2 where q:
      "(if opens_quote token then absorb (hd token) token s1 else (token, s1)) = (token2, s2)"
      by (cases "if opens_quote token then absorb (hd token) token s1 else (token, s1)")
    have step: "split_loop s out = split_loop s2 (out @ [strip_quotes token2])"
      using rw q by (subst split_loop.simps) simp
    have ih: "split_loop s2 (out @ [strip_quotes token2])
              = (out @ [strip_quotes token2]) @ spec_tokens (wswords s2)"
      using "1.IH" [OF rw refl q [symmetric]] by simp
    show ?thesis
    proof (cases "opens_quote token")
      case True
      with q have "absorb (hd token) token s1 = (token2, s2)" by simp
      then have "spec_gather (hd token) token (wswords s1) = (token2, wswords s2)"
        by (rule absorb_spec_gather)
      with True ws step ih show ?thesis by simp
    next
      case False
      with q have "token2 = token" "s2 = s1" by simp_all
      with False ws step ih show ?thesis by simp
    qed
  qed
qed

lemma split_args_words: "split_args s = spec_tokens (wswords s)"
  by (simp add: split_args_def split_loop_words)


lemma dquote_neq_squote [simp]: "dquote \<noteq> squote" "squote \<noteq> dquote"
  by (simp_all add: dquote_def squote_def)

lemma wswords_all_space: "(\<forall>c\<in>set s. isspace c) \<Longrightarrow> wswords s = []"
  by (induction s) auto

lemma wswords_word:
  "w \<in> set (wswords s) \<Longrightarrow> w \<noteq> [] \<and> (\<forall>c\<in>set w. \<not> isspace c)"
proof (induction s rule: wswords.induct)
  case 1
  then show ?case by simp
next
  case (2 c cs)
  show ?case
  proof (cases "isspace c")
    case True
    with 2 show ?thesis by simp
  next
    case False
    with "2.prems" have "w = c # takeWhile (\<lambda>c. \<not> isspace c) cs
        \<or> w \<in> set (wswords (dropWhile (\<lambda>c. \<not> isspace c) cs))" by simp
    then show ?thesis
    proof
      assume "w = c # takeWhile (\<lambda>c. \<not> isspace c) cs"
      with False show ?thesis by (auto dest: set_takeWhileD)
    next
      assume "w \<in> set (wswords (dropWhile (\<lambda>c. \<not> isspace c) cs))"
      with "2.IH"(2) [OF False] show ?thesis by simp
    qed
  qed
qed

lemma wswords_append:
  assumes "w \<noteq> []" and "\<forall>c\<in>set w. \<not> isspace c" and "t = [] \<or> isspace (hd t)"
  shows "wswords (w @ t) = w # wswords t"
proof -
  from assms(1) obtain c cs where w: "w = c # cs" by (cases w) auto
  from assms(3) have tk: "takeWhile (\<lambda>c. \<not> isspace c) t = []"
    and dr: "dropWhile (\<lambda>c. \<not> isspace c) t = t"
    by (cases t; auto)+
  from assms(2) w have c: "\<not> isspace c" and cs: "\<forall>x\<in>set cs. \<not> isspace x" by auto
  from cs have "takeWhile (\<lambda>c. \<not> isspace c) (cs @ t) = cs"
    and "dropWhile (\<lambda>c. \<not> isspace c) (cs @ t) = t"
    using tk dr by (simp_all add: takeWhile_append2 dropWhile_append2)
  with c w show ?thesis by simp
qed

lemma isspace_space [simp]: "isspace CHR '' ''"
  by (simp add: isspace_def)

lemma wswords_unwords:
  "(\<forall>t\<in>set ts. t \<noteq> [] \<and> (\<forall>c\<in>set t. \<not> isspace c)) \<Longrightarrow> wswords (unwords ts) = ts"
proof (induction ts rule: unwords.induct)
  case 1
  then show ?case by simp
next
  case (2 w)
  then show ?case using wswords_append [of w "[]"] by simp
next
  case (3 w v ws)
  then have "wswords (w @ '' '' @ unwords (v # ws)) = w # wswords ('' '' @ unwords (v # ws))"
    by (intro wswords_append) auto
  with 3 show ?case by simp
qed

lemma unwords_Cons: "unwords (w # ws) = w @ concat (map (\<lambda>m. '' '' @ m) ws)"
  by (induction ws arbitrary: w) auto

lemma spec_gather_closed:
  "(\<forall>m\<in>set ms. last m \<noteq> q) \<Longrightarrow> last c = q \<Longrightarrow>
   spec_gather q tok (ms @ c # rest) = (tok @ concat (map (\<lambda>m. '' '' @ m) (ms @ [c])), rest)"
  by (induction ms arbitrary: tok) auto

lemma spec_gather_open:
  "(\<forall>m\<in>set ms. last m \<noteq> q) \<Longrightarrow>
   spec_gather q tok ms = (tok @ concat (map (\<lambda>m. '' '' @ m) ms), [])"
  by (induction ms arbitrary: tok) auto

lemma strip_quotes_bounded:
  "2 \<le> length t \<Longrightarrow> q = dquote \<or> q = squote \<Longrightarrow> hd t = q \<Longrightarrow> last t = q \<Longrightarrow>
   strip_quotes t = butlast (tl t)"
  by (auto simp: strip_quotes_def butlast_conv_take drop_Suc numeral_2_eq_2)

lemma strip_quotes_open:
  "q = dquote \<or> q = squote \<Longrightarrow> hd t = q \<Longrightarrow> last t \<noteq> q \<Longrightarrow> strip_quotes t = t"
  by (auto simp: strip_quotes_def)

lemma strip_quotes_plain:
  "hd t \<noteq> dquote \<Longrightarrow> hd t \<noteq> squote \<Longrightarrow> strip_quotes t = t"
  by (auto simp: strip_quotes_def)

lemma spec_tokens_plain:
  "(\<forall>t\<in>set ts. hd t \<noteq> dquote \<and> hd t \<noteq> squote) \<Longrightarrow> spec_tokens ts = ts"
  by (induction ts) (auto simp: opens_quote_def strip_quotes_plain)


lemma tokens_quoted_run:
  assumes q: "q = dquote \<or> q = squote" and wne: "w \<noteq> []" and w: "hd w = q" "last w \<noteq> q"
    and ms: "\<forall>m\<in>set ms. last m \<noteq> q" and c: "c \<noteq> []" "last c = q"
  shows "spec_tokens (w # ms @ c # rest)
         = butlast (tl (unwords (w # ms @ [c]))) # spec_tokens rest"
proof -
  let ?tok = "unwords (w # ms @ [c])"
  from q w have op: "opens_quote w" by (auto simp: opens_quote_def)
  have g: "spec_gather (hd w) w (ms @ c # rest) = (?tok, rest)"
    using ms c w by (simp add: spec_gather_closed unwords_Cons)
  have tok: "?tok = w @ concat (map (\<lambda>m. '' '' @ m) ms) @ '' '' @ c"
    by (simp add: unwords_Cons)
  from wne have "hd ?tok = q" using w by (simp add: tok)
  moreover have "last ?tok = q" using c by (simp add: tok)
  moreover have "2 \<le> length ?tok" unfolding tok using wne c by (cases w; cases c; simp)
  ultimately have "strip_quotes ?tok = butlast (tl ?tok)"
    using q by (intro strip_quotes_bounded) auto
  with op g show ?thesis by simp
qed

lemma tokens_quoted_word:
  assumes "q = dquote \<or> q = squote" "2 \<le> length w" "hd w = q" "last w = q"
  shows "spec_tokens (w # rest) = butlast (tl w) # spec_tokens rest"
proof -
  from assms have "\<not> opens_quote w" by (auto simp: opens_quote_def)
  moreover from assms have "strip_quotes w = butlast (tl w)"
    by (intro strip_quotes_bounded) auto
  ultimately show ?thesis by simp
qed

lemma tokens_unterminated:
  assumes q: "q = dquote \<or> q = squote" and wne: "w \<noteq> []" and w: "hd w = q" "last w \<noteq> q"
    and ms: "\<forall>m\<in>set ms. m \<noteq> [] \<and> last m \<noteq> q"
  shows "spec_tokens (w # ms) = [unwords (w # ms)]"
proof -
  let ?tok = "unwords (w # ms)"
  from q w have op: "opens_quote w" by (auto simp: opens_quote_def)
  have g: "spec_gather (hd w) w ms = (?tok, [])"
    using ms w by (simp add: spec_gather_open unwords_Cons)
  have hd_tok: "hd ?tok = q" using wne w by (simp add: unwords_Cons)
  have "last ?tok \<noteq> q"
  proof (cases ms rule: rev_cases)
    case Nil
    with w show ?thesis by simp
  next
    case (snoc ms' m)
    with ms have "m \<noteq> []" "last m \<noteq> q" by auto
    with snoc show ?thesis by (simp add: unwords_Cons)
  qed
  with q hd_tok have "strip_quotes ?tok = ?tok" by (intro strip_quotes_open) auto
  with op g show ?thesis by simp
qed

lemma tokens_plain_word:
  assumes "hd w \<noteq> dquote" "hd w \<noteq> squote"
  shows "spec_tokens (w # rest) = w # spec_tokens rest"
  using assms by (simp add: opens_quote_def strip_quotes_plain)

lemma wswords_tail_nonempty: "wswords s = w # ws \<Longrightarrow> m \<in> set ws \<Longrightarrow> m \<noteq> []"
  using wswords_word [of m s] by simp

lemma wswords_head_nonempty: "wswords s = w # ws \<Longrightarrow> w \<noteq> []"
  using wswords_word [of w s] by simp

section \<open>Claims about the tokenizer\<close>

text \<open>
  Claim C5. The tokenizer splits the line on runs of whitespace: its result is the
  word-level tokenizer of the specification applied to the whitespace-delimited words,
  and input made of whitespace only gives the empty sequence. A word that begins with a
  quote character and does not end with it absorbs the following words, joined by single
  spaces, up to and including the first one that ends with that quote character, and
  the finished token loses exactly its first and its last character. A single word of
  two or more characters bounded by the same quote character loses exactly those two
  characters. When no later word ends with the opening quote character the token is
  the rest of the line (words joined by single spaces), with nothing stripped; that is
  an ordinary result, not an error. A word that does not begin with a quote character
  is a token as it stands. The line \<open>ls -l "my dir"\<close> gives the three tokens
  \<open>ls\<close>, \<open>-l\<close> and \<open>my dir\<close>.
\<close>

theorem split_args_tokenizer:
  "split_args s = spec_tokens (wswords s)
   \<and> ((\<forall>x\<in>set s. isspace x) \<longrightarrow> split_args s = [])
   \<and> (wswords s = w # ms @ c # rest \<and> (q = dquote \<or> q = squote) \<and> hd w = q \<and> last w \<noteq> q
        \<and> (\<forall>m\<in>set ms. last m \<noteq> q) \<and> last c = q
       \<longrightarrow> split_args s = butlast (tl (unwords (w # ms @ [c]))) # spec_tokens rest)
   \<and> (wswords s = w # rest \<and> (q = dquote \<or> q = squote) \<and> 2 \<le> length w \<and> hd w = q \<and> last w = q
       \<longrightarrow> split_args s = butlast (tl w) # spec_tokens rest)
   \<and> (wswords s = w # ms \<and> (q = dquote \<or> q = squote) \<and> hd w = q \<and> last w \<noteq> q
        \<and> (\<forall>m\<in>set ms. last m \<noteq> q)
       \<longrightarrow> split_args s = [unwords (w # ms)])
   \<and> (wswords s = w # rest \<and> hd w \<noteq> dquote \<and> hd w \<noteq> squote
       \<longrightarrow> split_args s = w # spec_tokens rest)
   \<and> split_args (''ls -l '' @ [dquote] @ ''my dir'' @ [dquote]) = [''ls'', ''-l'', ''my dir'']"
proof (intro conjI impI)
  show "split_args s = spec_tokens (wswords s)"
    by (rule split_args_words)
next
  assume "\<forall>x\<in>set s. isspace x"
  then show "split_args s = []"
    by (simp add: split_args_words wswords_all_space)
next
  assume a: "wswords s = w # ms @ c # rest \<and> (q = dquote \<or> q = squote) \<and> hd w = q \<and> last w \<noteq> q
        \<and> (\<forall>m\<in>set ms. last m \<noteq> q) \<and> last c = q"
  then have ws: "wswords s = w # ms @ c # rest" by simp
  then have ne: "c \<noteq> []" "w \<noteq> []"
    using wswords_tail_nonempty [of s w "ms @ c # rest" c] wswords_head_nonempty [of s w] by simp_all
  have "spec_tokens (w # ms @ c # rest)
        = butlast (tl (unwords (w # ms @ [c]))) # spec_tokens rest"
    by (rule tokens_quoted_run [of q]) (use a ne in simp_all)
  then show "split_args s = butlast (tl (unwords (w # ms @ [c]))) # spec_tokens rest"
    unfolding split_args_words ws .
next
  assume a: "wswords s = w # rest \<and> (q = dquote \<or> q = squote) \<and> 2 \<le> length w \<and> hd w = q \<and> last w = q"
  then have ws: "wswords s = w # rest" by simp
  have "spec_tokens (w # rest) = butlast (tl w) # spec_tokens rest"
    by (rule tokens_quoted_word [of q]) (use a in simp_all)
  then show "split_args s = butlast (tl w) # spec_tokens rest"
    unfolding split_args_words ws .
next
  assume a: "wswords s = w # ms \<and> (q = dquote \<or> q = squote) \<and> hd w = q \<and> last w \<noteq> q
        \<and> (\<forall>m\<in>set ms. last m \<noteq> q)"
  then have ws: "wswords s = w # ms" by simp
  then have ne: "\<forall>m\<in>set ms. m \<noteq> []" "w \<noteq> []"
    using wswords_tail_nonempty [of s w ms] wswords_head_nonempty [of s w] by blast+
  have "spec_tokens (w # ms) = [unwords (w # ms)]"
    by (rule tokens_unterminated [of q]) (use a ne in simp_all)
  then show "split_args s = [unwords (w # ms)]"
    unfolding split_args_words ws .
next
  assume a: "wswords s = w # rest \<and> hd w \<noteq> dquote \<and> hd w \<noteq> squote"
  then have ws: "wswords s = w # rest" by simp
  have "spec_tokens (w # rest) = w # spec_tokens rest"
    by (rule tokens_plain_word) (use a in simp_all)
  then show "split_args s = w # spec_tokens rest"
    unfolding split_args_words ws .
next
  show "split_args (''ls -l '' @ [dquote] @ ''my dir'' @ [dquote]) = [''ls'', ''-l'', ''my dir'']"
    by code_simp
qed

text \<open>
  The theorem at concrete lines: blanks and a tab only; a single-quoted run of three
  words followed by a plain word; a double-quoted single word; an unterminated double
  quote; two plain words separated by two blanks.
\<close>

theorem split_args_tokenizer_witness:
  "split_args [CHR 0x20, CHR 0x09, CHR 0x20] = []
   \<and> wswords ([squote] @ ''a  b c'' @ [squote] @ '' x'')
       = [[squote] @ ''a'', ''b'', ''c'' @ [squote], ''x'']
   \<and> split_args ([squote] @ ''a  b c'' @ [squote] @ '' x'') = [''a b c'', ''x'']
   \<and> wswords ([dquote] @ ''ab'' @ [dquote] @ '' x'') = [[dquote] @ ''ab'' @ [dquote], ''x'']
   \<and> split_args ([dquote] @ ''ab'' @ [dquote] @ '' x'') = [''ab'', ''x'']
   \<and> wswords ([dquote] @ ''a b  c'') = [[dquote] @ ''a'', ''b'', ''c'']
   \<and> split_args ([dquote] @ ''a b  c'') = [[dquote] @ ''a b c'']
   \<and> wswords ''ls  -l'' = [''ls'', ''-l'']
   \<and> split_args ''ls  -l'' = [''ls'', ''-l'']"
proof -
  have w1: "\<forall>x\<in>set [CHR 0x20, CHR 0x09, CHR 0x20]. isspace x"
    by (simp add: isspace_def)
  have r1: "split_args [CHR 0x20, CHR 0x09, CHR 0x20] = []"
    using split_args_tokenizer [where s = "[CHR 0x20, CHR 0x09, CHR 0x20]",
        THEN conjunct2, THEN conjunct1] w1 by (rule mp)
  have w2: "wswords ([squote] @ ''a  b c'' @ [squote] @ '' x'')
       = [[squote] @ ''a'', ''b'', ''c'' @ [squote], ''x'']"
    by (simp add: isspace_def squote_def)
  have h2: "(squote = dquote \<or> squote = squote) \<and> hd ([squote] @ ''a'') = squote
      \<and> last ([squote] @ ''a'') \<noteq> squote \<and> (\<forall>m\<in>set [''b'']. last m \<noteq> squote)
      \<and> last (''c'' @ [squote]) = squote"
    by (simp add: squote_def)
  have "split_args ([squote] @ ''a  b c'' @ [squote] @ '' x'')
        = butlast (tl (unwords (([squote] @ ''a'') # [''b''] @ [''c'' @ [squote]])))
          # spec_tokens [''x'']"
    using split_args_tokenizer [where s = "[squote] @ ''a  b c'' @ [squote] @ '' x''"
        and w = "[squote] @ ''a''" and ms = "[''b'']" and c = "''c'' @ [squote]"
        and rest = "[''x'']" and q = squote,
        THEN conjunct2, THEN conjunct2, THEN conjunct1] w2 h2
    by simp
  then have r2: "split_args ([squote] @ ''a  b c'' @ [squote] @ '' x'') = [''a b c'', ''x'']"
    by (simp add: squote_def dquote_def opens_quote_def strip_quotes_def)
  have w3: "wswords ([dquote] @ ''ab'' @ [dquote] @ '' x'') = [[dquote] @ ''ab'' @ [dquote], ''x'']"
    by (simp add: isspace_def dquote_def)
  have h3: "(dquote = dquote \<or> dquote = squote) \<and> 2 \<le> length ([dquote] @ ''ab'' @ [dquote])
      \<and> hd ([dquote] @ ''ab'' @ [dquote]) = dquote \<and> last ([dquote] @ ''ab'' @ [dquote]) = dquote"
    by simp
  have "split_args ([dquote] @ ''ab'' @ [dquote] @ '' x'')
        = butlast (tl ([dquote] @ ''ab'' @ [dquote])) # spec_tokens [''x'']"
    using split_args_tokenizer [where s = "[dquote] @ ''ab'' @ [dquote] @ '' x''"
        and w = "[dquote] @ ''ab'' @ [dquote]" and rest = "[''x'']" and q = dquote,
        THEN conjunct2, THEN conjunct2, THEN conjunct2, THEN conjunct1] w3 h3
    by simp
  then have r3: "split_args ([dquote] @ ''ab'' @ [dquote] @ '' x'') = [''ab'', ''x'']"
    by (simp add: squote_def dquote_def opens_quote_def strip_quotes_def)
  have w4: "wswords ([dquote] @ ''a b  c'') = [[dquote] @ ''a'', ''b'', ''c'']"
    by (simp add: isspace_def dquote_def)
  have h4: "(dquote = dquote \<or> dquote = squote) \<and> hd ([dquote] @ ''a'') = dquote
      \<and> last ([dquote] @ ''a'') \<noteq> dquote \<and> (\<forall>m\<in>set [''b'', ''c'']. last m \<noteq> dquote)"
    by (simp add: dquote_def)
  have "split_args ([dquote] @ ''a b  c'') = [unwords (([dquote] @ ''a'') # [''b'', ''c''])]"
    using split_args_tokenizer [where s = "[dquote] @ ''a b  c''"
        and w = "[dquote] @ ''a''" and ms = "[''b'', ''c'']" and q = dquote,
        THEN conjunct2, THEN conjunct2, THEN conjunct2, THEN conjunct2, THEN conjunct1] w4 h4
    by simp
  then have r4: "split_args ([dquote] @ ''a b  c'') = [[dquote] @ ''a b c'']"
    by simp
  have w5: "wswords ''ls  -l'' = [''ls'', ''-l'']"
    by (simp add: isspace_def)
  have h5: "hd ''ls'' \<noteq> dquote \<and> hd ''ls'' \<noteq> squote"
    by (simp add: dquote_def squote_def)
  have "split_args ''ls  -l'' = ''ls'' # spec_tokens [''-l'']"
    using split_args_tokenizer [where s = "''ls  -l''" and w = "''ls''" and rest = "[''-l'']",
        THEN conjunct2, THEN conjunct2, THEN conjunct2, THEN conjunct2, THEN conjunct2,
        THEN conjunct1] w5 h5
    by simp
  then have r5: "split_args ''ls  -l'' = [''ls'', ''-l'']"
    by (simp add: squote_def dquote_def opens_quote_def strip_quotes_def)
  from r1 w2 r2 w3 r3 w4 r4 w5 r5 show ?thesis by blast
qed

text \<open>
  Claim C9, as stated: for every token sequence in which no token contains a space and
  no token is quoted, tokenizing the tokens joined by single spaces gives the sequence
  back. It fails for the one-element sequence holding the empty token, which the
  tokenizer itself produces from two double quotes: the join is the empty line, which
  tokenizes to the empty sequence. It also fails for a token that contains a tab, which
  is no space but separates words.
\<close>

theorem retokenize_counterexample:
  "CHR '' '' \<notin> set ([] :: string) \<and> \<not> starts_with_quote []
   \<and> split_args [dquote, dquote] = [[]]
   \<and> unwords [[]] = []
   \<and> split_args (unwords [[]]) = []
   \<and> split_args (unwords [[]]) \<noteq> [[]]
   \<and> CHR '' '' \<notin> set [CHR ''a'', CHR 0x09, CHR ''b''] \<and> \<not> starts_with_quote [CHR ''a'', CHR 0x09, CHR ''b'']
   \<and> split_args (unwords [[CHR ''a'', CHR 0x09, CHR ''b'']]) = [''a'', ''b'']
   \<and> split_args (unwords [[CHR ''a'', CHR 0x09, CHR ''b'']]) \<noteq> [[CHR ''a'', CHR 0x09, CHR ''b'']]"
  by (simp add: starts_with_quote_def split_args_words isspace_def dquote_def squote_def
      opens_quote_def strip_quotes_def)

text \<open>
  Claim C9, amended: for every sequence of non-empty tokens in which no token contains
  a whitespace character (space, tab, line feed, vertical tab, form feed, carriage
  return) and no token begins with a quote character, tokenizing the tokens joined by
  single spaces gives exactly the same sequence.
\<close>

theorem retokenize_plain_tokens:
  "(\<forall>t\<in>set ts. t \<noteq> [] \<and> (\<forall>c\<in>set t. \<not> isspace c) \<and> \<not> starts_with_quote t)
   \<Longrightarrow> split_args (unwords ts) = ts"
proof -
  assume a: "\<forall>t\<in>set ts. t \<noteq> [] \<and> (\<forall>c\<in>set t. \<not> isspace c) \<and> \<not> starts_with_quote t"
  then have "wswords (unwords ts) = ts"
    by (intro wswords_unwords) blast
  moreover have "\<forall>t\<in>set ts. hd t \<noteq> dquote \<and> hd t \<noteq> squote"
  proof
    fix t assume "t \<in> set ts"
    with a have "t \<noteq> []" "\<not> starts_with_quote t" by auto
    then show "hd t \<noteq> dquote \<and> hd t \<noteq> squote"
      by (cases t) (auto simp: starts_with_quote_def)
  qed
  ultimately show ?thesis
    by (simp add: split_args_words spec_tokens_plain)
qed

theorem retokenize_plain_tokens_witness:
  "unwords [''ls'', ''-l'', ''a'' @ [dquote] @ ''b''] = ''ls -l a'' @ [dquote] @ ''b''
   \<and> split_args (''ls -l a'' @ [dquote] @ ''b'') = [''ls'', ''-l'', ''a'' @ [dquote] @ ''b'']"
proof -
  have h: "\<forall>t\<in>set [''ls'', ''-l'', ''a'' @ [dquote] @ ''b''].
             t \<noteq> [] \<and> (\<forall>c\<in>set t. \<not> isspace c) \<and> \<not> starts_with_quote t"
    by (simp add: isspace_def starts_with_quote_def dquote_def squote_def)
  have u: "unwords [''ls'', ''-l'', ''a'' @ [dquote] @ ''b''] = ''ls -l a'' @ [dquote] @ ''b''"
    by simp
  from retokenize_plain_tokens [OF h] u show ?thesis by simp
qed

text \<open>
  The empty command name matches no name of the dispatch chain, so the line goes to
  \<open>popen\<close>.
\<close>

lemma dispatch_empty_name: "dispatch st [[]] line = (st, [Popen line], Continue)"
  by (simp add: dispatch_def other_builtins_def)

lemma split_args_two_quotes:
  "split_args [dquote, dquote] = [[]]" "split_args [squote, squote] = [[]]"
  by (simp_all add: split_args_words isspace_def dquote_def squote_def
      opens_quote_def strip_quotes_def)

text \<open>
  Claim C10, as stated: a line of exactly two identical quote characters tokenizes to
  the one-element sequence holding the empty string, so the empty string becomes the
  command name at dispatch. The second half fails once the empty string is an alias
  name, which the line \<open>alias =foo\<close> brings about (\<open>cmd_alias\<close> takes the text before
  \<open>=\<close> as the name, and that text is empty): the line of two quotes is then rewritten
  to \<open>foo\<close> before it is tokenized for the dispatch, and the command name is \<open>foo\<close>.
\<close>

theorem two_quotes_alias_counterexample:
  "split_args ''alias =foo'' = [''alias'', ''=foo'']
   \<and> alias_map (fst (main_loop fresh [''alias =foo''])) [] = Some ''foo''
   \<and> split_args [squote, squote] = [[]]
   \<and> substitute_aliases (alias_map (fst (main_loop fresh [''alias =foo''])))
         [squote, squote] = ''foo''
   \<and> hd (split_args (substitute_aliases (alias_map (fst (main_loop fresh [''alias =foo''])))
         [squote, squote])) = ''foo''
   \<and> snd (main_loop fresh [''alias =foo'', [squote, squote]]) ! 1 = [Popen ''foo'']
   \<and> snd (main_loop fresh [''alias =foo'', [squote, squote]]) ! 1 \<noteq> [Popen [squote, squote]]
   \<and> history_buf (fst (main_loop fresh [''alias =foo'', [squote, squote]]))
       = [''alias =foo'', ''foo'']"
  by code_simp

text \<open>
  Claim C10, amended. A line that consists of exactly two double quotes, or of exactly
  two single quotes, tokenizes to the one-element sequence holding the empty string,
  whereas a line of whitespace only tokenizes to the empty sequence. When the empty
  string is not an alias name, the main loop therefore records the line and dispatches
  on the argument vector whose command name is the empty string; no built-in has that
  name, so the line is handed to \<open>popen\<close>.
\<close>

theorem two_quotes_empty_token:
  "split_args [dquote, dquote] = [[]] \<and> split_args [squote, squote] = [[]]
   \<and> ((q = dquote \<or> q = squote) \<and> alias_map st [] = None \<longrightarrow>
        main_step st [q, q]
          = dispatch (st\<lparr>history_buf := history_buf st @ [[q, q]]\<rparr>) [[]] [q, q]
        \<and> main_step st [q, q]
          = (st\<lparr>history_buf := history_buf st @ [[q, q]]\<rparr>, [Popen [q, q]], Continue))
   \<and> ((\<forall>x\<in>set s. isspace x) \<longrightarrow> split_args s = [])"
proof (intro conjI impI)
  show "split_args [dquote, dquote] = [[]]" "split_args [squote, squote] = [[]]"
    by (rule split_args_two_quotes)+
next
  assume a: "(q = dquote \<or> q = squote) \<and> alias_map st [] = None"
  then have t: "split_args [q, q] = [[]]"
    using split_args_two_quotes by auto
  with a have "substitute_aliases (alias_map st) [q, q] = [q, q]"
    by (simp add: substitute_aliases_def)
  with t show m: "main_step st [q, q]
      = dispatch (st\<lparr>history_buf := history_buf st @ [[q, q]]\<rparr>) [[]] [q, q]"
    by (simp add: main_step_def Let_def)
  then show "main_step st [q, q]
      = (st\<lparr>history_buf := history_buf st @ [[q, q]]\<rparr>, [Popen [q, q]], Continue)"
    by (simp add: dispatch_empty_name)
next
  assume "\<forall>x\<in>set s. isspace x"
  then show "split_args s = []"
    by (simp add: split_args_words wswords_all_space)
qed

theorem two_quotes_empty_token_witness:
  "alias_map fresh [] = None
   \<and> main_step fresh [squote, squote]
       = (\<lparr>history_buf = [[squote, squote]], alias_map = Map.empty\<rparr>,
          [Popen [squote, squote]], Continue)
   \<and> split_args [CHR 0x20, CHR 0x20] = []"
proof -
  have h: "(squote = dquote \<or> squote = squote) \<and> alias_map fresh [] = None"
    by (simp add: fresh_def)
  have w: "\<forall>x\<in>set [CHR 0x20, CHR 0x20]. isspace x"
    by (simp add: isspace_def)
  note T = two_quotes_empty_token [where q = squote and st = fresh and s = "[CHR 0x20, CHR 0x20]"]
  from T h have "main_step fresh [squote, squote]
       = (fresh\<lparr>history_buf := history_buf fresh @ [[squote, squote]]\<rparr>,
          [Popen [squote, squote]], Continue)"
    by blast
  moreover from T w have "split_args [CHR 0x20, CHR 0x20] = []"
    by blast
  ultimately show ?thesis using h by (simp add: fresh_def)
qed

section \<open>Claims about alias substitution\<close>

lemma substitute_no_tokens: "split_args line = [] \<Longrightarrow> substitute_aliases m line = line"
  by (simp add: substitute_aliases_def)

lemma substitute_no_alias:
  "split_args line = key # others \<Longrightarrow> m key = None \<Longrightarrow> substitute_aliases m line = line"
  by (simp add: substitute_aliases_def)

lemma substitute_one_token:
  "split_args line = [key] \<Longrightarrow> m key = Some cmd \<Longrightarrow> substitute_aliases m line = cmd"
  by (simp add: substitute_aliases_def)

lemma find_first_of_after_word:
  assumes "\<forall>x\<in>set w. \<not> isspace x" and "c = CHR 0x20 \<or> c = CHR 0x09"
  shows "find_first_of (w @ c # tail) [CHR 0x20, CHR 0x09] = Some (length w)"
proof -
  from assms(1) have "\<forall>x\<in>set w. x \<notin> set [CHR 0x20, CHR 0x09]"
    by (auto simp: isspace_def)
  then have "takeWhile (\<lambda>x. x \<notin> set [CHR 0x20, CHR 0x09]) (w @ c # tail) = w"
    using assms(2) by (simp add: takeWhile_append2)
  then show ?thesis by (simp add: find_first_of_def)
qed

lemma split_args_word_first:
  assumes "w \<noteq> []" and "\<forall>x\<in>set w. \<not> isspace x" and "\<not> opens_quote w" and "isspace c"
  shows "split_args (w @ c # tail) = strip_quotes w # split_args tail"
proof -
  have "wswords (w @ c # tail) = w # wswords (c # tail)"
    using assms by (intro wswords_append) simp_all
  with assms show ?thesis by (simp add: split_args_words)
qed

lemma substitute_after_word:
  assumes line: "line = w @ c # tail" and w: "w \<noteq> []" "\<forall>x\<in>set w. \<not> isspace x" "\<not> opens_quote w"
    and c: "c = CHR 0x20 \<or> c = CHR 0x09" and gt: "1 < length (split_args line)"
    and m: "m (strip_quotes w) = Some cmd"
  shows "substitute_aliases m line = cmd @ '' '' @ tail"
proof -
  from c have sp: "isspace c" by (auto simp: isspace_def)
  have toks: "split_args line = strip_quotes w # split_args tail"
    unfolding line using w sp by (rule split_args_word_first)
  with gt have "split_args tail \<noteq> []" by simp
  then have tail: "tail \<noteq> []" by (auto simp: split_args_words)
  have "find_first_of line [CHR 0x20, CHR 0x09] = Some (length w)"
    unfolding line using w(2) c by (rule find_first_of_after_word)
  moreover have "drop (length w + 1) line = tail" by (simp add: line)
  ultimately show ?thesis
    using toks gt m tail by (simp add: substitute_aliases_def)
qed

text \<open>
  Claim C2, as stated: when the first token is an alias name and the line has more than
  one token, the result is the replacement text, one space, and the substring of the
  line strictly after the first whitespace run following the first token. With the
  alias \<open>ll\<close> for \<open>ls -l\<close> this fails on \<open>ll\<close>, two blanks, \<open>/tmp\<close>: the code
  cuts after the first blank only and keeps the second. It also fails when the line
  starts with a blank (the cut is then before the alias name, which stays in the
  result) and when the separator is a vertical tab (no space or tab is found and the
  arguments are dropped).
\<close>

theorem substitute_aliases_counterexample:
  "split_args ''ll  /tmp'' = [''ll'', ''/tmp'']
   \<and> spec_rest ''ll  /tmp'' = ''/tmp''
   \<and> substitute_aliases [''ll'' \<mapsto> ''ls -l''] ''ll  /tmp'' = ''ls -l  /tmp''
   \<and> substitute_aliases [''ll'' \<mapsto> ''ls -l''] ''ll  /tmp''
       \<noteq> ''ls -l'' @ '' '' @ spec_rest ''ll  /tmp''
   \<and> split_args '' ll /tmp'' = [''ll'', ''/tmp'']
   \<and> spec_rest '' ll /tmp'' = ''/tmp''
   \<and> substitute_aliases [''ll'' \<mapsto> ''ls -l''] '' ll /tmp'' = ''ls -l ll /tmp''
   \<and> substitute_aliases [''ll'' \<mapsto> ''ls -l''] '' ll /tmp''
       \<noteq> ''ls -l'' @ '' '' @ spec_rest '' ll /tmp''
   \<and> split_args (''ll'' @ [CHR 0x0B] @ ''/tmp'') = [''ll'', ''/tmp'']
   \<and> spec_rest (''ll'' @ [CHR 0x0B] @ ''/tmp'') = ''/tmp''
   \<and> substitute_aliases [''ll'' \<mapsto> ''ls -l''] (''ll'' @ [CHR 0x0B] @ ''/tmp'') = ''ls -l''
   \<and> substitute_aliases [''ll'' \<mapsto> ''ls -l''] (''ll'' @ [CHR 0x0B] @ ''/tmp'')
       \<noteq> ''ls -l'' @ '' '' @ spec_rest (''ll'' @ [CHR 0x0B] @ ''/tmp'')"
  by code_simp

text \<open>
  Claim C2, amended. A line without tokens and a line whose first token is no alias
  name are returned unchanged. A line with exactly one token, an alias name, becomes
  the replacement text alone. When the line begins with its first word (no leading
  whitespace), that word is not the opening of a multi-word quotation, it is followed
  by a space or a tab, the line has more than one token and the first token is an alias
  name, then the result is the replacement text, one space, and the substring of the
  line strictly after that one space or tab; further whitespace of the run is kept.
  The pass is not repeated: with \<open>a\<close> an alias for \<open>b\<close> and \<open>b\<close> an alias for
  \<open>c\<close>, the line \<open>a\<close> becomes \<open>b\<close>.
\<close>

theorem substitute_aliases_amended:
  "(split_args line = [] \<longrightarrow> substitute_aliases m line = line)
   \<and> (split_args line = key # others \<and> m key = None \<longrightarrow> substitute_aliases m line = line)
   \<and> (split_args line = [key] \<and> m key = Some cmd \<longrightarrow> substitute_aliases m line = cmd)
   \<and> (line = w @ c # tail \<and> w \<noteq> [] \<and> (\<forall>x\<in>set w. \<not> isspace x) \<and> \<not> opens_quote w
        \<and> (c = CHR 0x20 \<or> c = CHR 0x09) \<and> 1 < length (split_args line)
        \<and> m (strip_quotes w) = Some cmd
       \<longrightarrow> hd (split_args line) = strip_quotes w
           \<and> substitute_aliases m line = cmd @ '' '' @ tail)
   \<and> substitute_aliases [''a'' \<mapsto> ''b'', ''b'' \<mapsto> ''c''] ''a'' = ''b''"
proof (intro conjI impI)
  assume "split_args line = []"
  then show "substitute_aliases m line = line" by (rule substitute_no_tokens)
next
  assume "split_args line = key # others \<and> m key = None"
  then show "substitute_aliases m line = line" by (simp add: substitute_no_alias)
next
  assume "split_args line = [key] \<and> m key = Some cmd"
  then show "substitute_aliases m line = cmd" by (simp add: substitute_one_token)
next
  assume a: "line = w @ c # tail \<and> w \<noteq> [] \<and> (\<forall>x\<in>set w. \<not> isspace x) \<and> \<not> opens_quote w
        \<and> (c = CHR 0x20 \<or> c = CHR 0x09) \<and> 1 < length (split_args line)
        \<and> m (strip_quotes w) = Some cmd"
  then have "isspace c" by (auto simp: isspace_def)
  with a show "hd (split_args line) = strip_quotes w"
    by (simp add: split_args_word_first)
  from a show "substitute_aliases m line = cmd @ '' '' @ tail"
    using substitute_after_word [of line w c tail m cmd] by blast
next
  show "substitute_aliases [''a'' \<mapsto> ''b'', ''b'' \<mapsto> ''c''] ''a'' = ''b''"
    by code_simp
qed

theorem substitute_aliases_amended_witness:
  "split_args ''   '' = [] \<and> substitute_aliases [''ll'' \<mapsto> ''ls -l''] ''   '' = ''   ''
   \<and> split_args ''pwd -x'' = [''pwd'', ''-x'']
   \<and> substitute_aliases [''ll'' \<mapsto> ''ls -l''] ''pwd -x'' = ''pwd -x''
   \<and> split_args ''ll '' = [''ll'']
   \<and> substitute_aliases [''ll'' \<mapsto> ''ls -l''] ''ll '' = ''ls -l''
   \<and> 1 < length (split_args ''ll /tmp'')
   \<and> substitute_aliases [''ll'' \<mapsto> ''ls -l''] ''ll /tmp'' = ''ls -l /tmp''"
proof -
  let ?m = "[''ll'' \<mapsto> ''ls -l'']"
  have t1: "split_args ''   '' = []" by code_simp
  have r1: "substitute_aliases ?m ''   '' = ''   ''"
    using substitute_aliases_amended [where line = "''   ''" and m = ?m, THEN conjunct1] t1
    by (rule mp)
  have t2: "split_args ''pwd -x'' = [''pwd'', ''-x'']" by code_simp
  have r2: "substitute_aliases ?m ''pwd -x'' = ''pwd -x''"
    using substitute_aliases_amended [where line = "''pwd -x''" and m = ?m and key = "''pwd''"
        and others = "[''-x'']", THEN conjunct2, THEN conjunct1] t2
    by simp
  have t3: "split_args ''ll '' = [''ll'']" by code_simp
  have r3: "substitute_aliases ?m ''ll '' = ''ls -l''"
    using substitute_aliases_amended [where line = "''ll ''" and m = ?m and key = "''ll''"
        and cmd = "''ls -l''", THEN conjunct2, THEN conjunct2, THEN conjunct1] t3
    by simp
  have t4: "1 < length (split_args ''ll /tmp'')" by code_simp
  have h4: "''ll /tmp'' = ''ll'' @ CHR 0x20 # ''/tmp'' \<and> ''ll'' \<noteq> []
      \<and> (\<forall>x\<in>set ''ll''. \<not> isspace x) \<and> \<not> opens_quote ''ll''
      \<and> (CHR 0x20 = CHR 0x20 \<or> CHR 0x20 = CHR 0x09) \<and> ?m (strip_quotes ''ll'') = Some ''ls -l''"
    by (simp add: isspace_def opens_quote_def strip_quotes_def dquote_def squote_def)
  have r4: "substitute_aliases ?m ''ll /tmp'' = ''ls -l'' @ '' '' @ ''/tmp''"
    using substitute_aliases_amended [where line = "''ll /tmp''" and m = ?m and w = "''ll''"
        and c = "CHR 0x20" and tail = "''/tmp''" and cmd = "''ls -l''",
        THEN conjunct2, THEN conjunct2, THEN conjunct2, THEN conjunct1] t4 h4
    by blast
  from t1 r1 t2 r2 t3 r3 t4 r4 show ?thesis by simp
qed

text \<open>
  Claim C1 at its own input. In a fresh session the line \<open>alias ll='ls -l'\<close> is split
  at the blank inside the quotation, because the token \<open>ll='ls\<close> does not begin with a
  quote character; \<open>cmd_alias\<close> sees only \<open>ll='ls\<close> and stores the replacement
  \<open>'ls\<close>. The line \<open>ll /tmp\<close> is then rewritten to \<open>'ls /tmp\<close>, not to
  \<open>ls -l /tmp\<close>; that text goes to the history and to \<open>popen\<close>.
\<close>

theorem alias_quoted_command_session:
  "split_args alias_line = [''alias'', ''ll='' @ [squote] @ ''ls'', ''-l'' @ [squote]]
   \<and> alias_map (fst (main_loop fresh [alias_line])) ''ll'' = Some ([squote] @ ''ls'')
   \<and> substitute_aliases (alias_map (fst (main_loop fresh [alias_line]))) ''ll /tmp''
       = [squote] @ ''ls /tmp''
   \<and> substitute_aliases (alias_map (fst (main_loop fresh [alias_line]))) ''ll /tmp''
       \<noteq> ''ls -l /tmp''
   \<and> snd (main_loop fresh [alias_line, ''ll /tmp'']) ! 1 = [Popen ([squote] @ ''ls /tmp'')]
   \<and> history_buf (fst (main_loop fresh [alias_line, ''ll /tmp'']))
       = [alias_line, [squote] @ ''ls /tmp'']"
  by code_simp

section \<open>Claims about the history log\<close>

text \<open>
  Of all the branches of the dispatch only \<open>history -c\<close> writes \<open>history_buf\<close>.
\<close>

lemma dispatch_history_buf:
  "args \<noteq> [] \<Longrightarrow>
   history_buf (fst (dispatch st args line))
     = (if hd args = ''history'' \<and> 1 < length args \<and> args ! 1 = ''-c'' then []
        else history_buf st)"
  by (simp add: dispatch_def Let_def cmd_history_def cmd_alias_def cmd_unalias_def
      split: option.splits prod.splits)

lemma split_args_history:
  "split_args ''history'' = [''history'']" "split_args ''history -c'' = [''history'', ''-c'']"
  by code_simp+

text \<open>
  Claim C4, as stated, says that no line that tokenizes to the empty sequence is
  appended to the history. A line of two blanks is not empty and tokenizes to the empty
  sequence, and the main loop appends it: the only line skipped before
  \<open>history_buf.push_back\<close> is the empty one.
\<close>

theorem history_log_counterexample:
  "[CHR 0x20, CHR 0x20] \<noteq> [] \<and> split_args [CHR 0x20, CHR 0x20] = []
   \<and> history_buf fresh = []
   \<and> history_buf (fst (main_step fresh [CHR 0x20, CHR 0x20])) = [[CHR 0x20, CHR 0x20]]"
  by code_simp

text \<open>
  Claim C4, amended. The empty line leaves the history as it is. For every non-empty
  line exactly one entry is appended, and its text is the line after alias
  substitution; this includes the lines that tokenize to the empty sequence, which are
  stored as typed. The entry is appended before the dispatch, so the one command that
  does not leave it in the log is \<open>history -c\<close>, whose handler empties the log.
\<close>

theorem history_log_amended:
  "history_buf (fst (main_step st [])) = history_buf st
   \<and> (line0 \<noteq> [] \<longrightarrow>
        (let line = substitute_aliases (alias_map st) line0; args = split_args line
         in history_buf (fst (main_step st line0))
            = (if args \<noteq> [] \<and> hd args = ''history'' \<and> 1 < length args \<and> args ! 1 = ''-c''
               then [] else history_buf st @ [line])))
   \<and> (line0 \<noteq> [] \<and> split_args line0 = [] \<longrightarrow>
        history_buf (fst (main_step st line0)) = history_buf st @ [line0])"
proof (intro conjI impI)
  show "history_buf (fst (main_step st [])) = history_buf st"
    by (simp add: main_step_def)
next
  assume ne: "line0 \<noteq> []"
  show "let line = substitute_aliases (alias_map st) line0; args = split_args line
        in history_buf (fst (main_step st line0))
           = (if args \<noteq> [] \<and> hd args = ''history'' \<and> 1 < length args \<and> args ! 1 = ''-c''
              then [] else history_buf st @ [line])"
  proof (cases "split_args (substitute_aliases (alias_map st) line0) = []")
    case True
    with ne show ?thesis by (simp add: main_step_def Let_def)
  next
    case False
    with ne show ?thesis
      by (simp add: main_step_def Let_def dispatch_history_buf)
  qed
next
  assume a: "line0 \<noteq> [] \<and> split_args line0 = []"
  then have "substitute_aliases (alias_map st) line0 = line0"
    by (simp add: substitute_aliases_def)
  with a show "history_buf (fst (main_step st line0)) = history_buf st @ [line0]"
    by (simp add: main_step_def Let_def)
qed

theorem history_log_amended_witness:
  "''ll /tmp'' \<noteq> []
   \<and> history_buf (fst (main_step \<lparr>history_buf = [''pwd''], alias_map = [''ll'' \<mapsto> ''ls -l'']\<rparr> ''ll /tmp''))
       = [''pwd'', ''ls -l /tmp'']
   \<and> [CHR 0x09] \<noteq> [] \<and> split_args [CHR 0x09] = []
   \<and> history_buf (fst (main_step \<lparr>history_buf = [''pwd''], alias_map = [''ll'' \<mapsto> ''ls -l'']\<rparr> [CHR 0x09]))
       = [''pwd'', [CHR 0x09]]"
proof -
  let ?st = "\<lparr>history_buf = [''pwd''], alias_map = [''ll'' \<mapsto> ''ls -l'']\<rparr>"
  have n1: "''ll /tmp'' \<noteq> []" by simp
  have s1: "substitute_aliases (alias_map ?st) ''ll /tmp'' = ''ls -l /tmp''" by code_simp
  have a1: "split_args ''ls -l /tmp'' = [''ls'', ''-l'', ''/tmp'']" by code_simp
  have r1: "history_buf (fst (main_step ?st ''ll /tmp'')) = [''pwd'', ''ls -l /tmp'']"
    using history_log_amended [where st = ?st and ?line0.0 = "''ll /tmp''",
        THEN conjunct2, THEN conjunct1, THEN mp, OF n1]
    unfolding Let_def s1 a1 by simp
  have n2: "[CHR 0x09] \<noteq> [] \<and> split_args [CHR 0x09] = []" by code_simp
  have r2: "history_buf (fst (main_step ?st [CHR 0x09])) = [''pwd'', [CHR 0x09]]"
    using history_log_amended [where st = ?st and ?line0.0 = "[CHR 0x09]",
        THEN conjunct2, THEN conjunct2, THEN mp, OF n2]
    by simp
  from n1 r1 n2 r2 show ?thesis by simp
qed

text \<open>
  Claim C3, as stated: after \<open>echo a\<close> and \<open>echo b\<close> in a fresh session,
  \<open>history\<close> prints exactly \<open>1  echo a\<close> and \<open>2  echo b\<close>, and after
  \<open>history -c\<close> a further \<open>history\<close> prints nothing. The line \<open>history\<close> is itself
  appended to the log before its handler runs, so the first listing has a third line
  \<open>3  history\<close> and the listing after the clearing is \<open>1  history\<close>.
\<close>

theorem history_command_counterexample:
  "snd (main_loop fresh history_session) ! 2
     = [Stdout (''1  echo a'' @ newline), Stdout (''2  echo b'' @ newline),
        Stdout (''3  history'' @ newline)]
   \<and> snd (main_loop fresh history_session) ! 2
     \<noteq> [Stdout (''1  echo a'' @ newline), Stdout (''2  echo b'' @ newline)]
   \<and> snd (main_loop fresh history_session) ! 4 = [Stdout (''1  history'' @ newline)]
   \<and> snd (main_loop fresh history_session) ! 4 \<noteq> []"
  by code_simp

text \<open>
  Claim C3, amended. In a fresh session, after \<open>echo a\<close> and \<open>echo b\<close>, the command
  \<open>history\<close> prints the log entries with 1-based indices in order, its own line
  included: \<open>1  echo a\<close>, \<open>2  echo b\<close>, \<open>3  history\<close>. After \<open>history -c\<close>, which
  prints \<open>history cleared\<close> and empties the log, a further \<open>history\<close> prints exactly
  \<open>1  history\<close>. In any state in which \<open>history\<close> is not an alias name,
  \<open>history\<close> lists the old entries followed by its own line, and \<open>history -c\<close>
  leaves the log empty.
\<close>

theorem history_command_amended:
  "snd (main_loop fresh history_session)
     = [[Stdout (''a'' @ newline)], [Stdout (''b'' @ newline)],
        [Stdout (''1  echo a'' @ newline), Stdout (''2  echo b'' @ newline),
         Stdout (''3  history'' @ newline)],
        [Stdout (''history cleared'' @ newline)],
        [Stdout (''1  history'' @ newline)]]
   \<and> (alias_map st ''history'' = None \<longrightarrow>
        main_step st ''history''
          = (st\<lparr>history_buf := history_buf st @ [''history'']\<rparr>,
             history_lines (history_buf st @ [''history'']), Continue))
   \<and> (alias_map st ''history'' = None \<longrightarrow>
        main_step st ''history -c''
          = (st\<lparr>history_buf := []\<rparr>, [Stdout (''history cleared'' @ newline)], Continue))"
proof (intro conjI impI)
  show "snd (main_loop fresh history_session)
     = [[Stdout (''a'' @ newline)], [Stdout (''b'' @ newline)],
        [Stdout (''1  echo a'' @ newline), Stdout (''2  echo b'' @ newline),
         Stdout (''3  history'' @ newline)],
        [Stdout (''history cleared'' @ newline)],
        [Stdout (''1  history'' @ newline)]]"
    by code_simp
next
  assume a: "alias_map st ''history'' = None"
  then have "substitute_aliases (alias_map st) ''history'' = ''history''"
    by (simp add: substitute_aliases_def split_args_history)
  then show "main_step st ''history''
          = (st\<lparr>history_buf := history_buf st @ [''history'']\<rparr>,
             history_lines (history_buf st @ [''history'']), Continue)"
    by (simp add: main_step_def Let_def split_args_history dispatch_def cmd_history_def)
next
  assume a: "alias_map st ''history'' = None"
  then have "substitute_aliases (alias_map st) ''history -c'' = ''history -c''"
    by (simp add: substitute_aliases_def split_args_history)
  then show "main_step st ''history -c''
          = (st\<lparr>history_buf := []\<rparr>, [Stdout (''history cleared'' @ newline)], Continue)"
    by (simp add: main_step_def Let_def split_args_history dispatch_def cmd_history_def)
qed

theorem history_command_amended_witness:
  "alias_map fresh ''history'' = None
   \<and> main_step fresh ''history''
       = (\<lparr>history_buf = [''history''], alias_map = Map.empty\<rparr>,
          [Stdout (''1  history'' @ newline)], Continue)
   \<and> main_step fresh ''history -c''
       = (\<lparr>history_buf = [], alias_map = Map.empty\<rparr>,
          [Stdout (''history cleared'' @ newline)], Continue)"
proof -
  have h: "alias_map fresh ''history'' = None" by (simp add: fresh_def)
  have d: "decimal (Suc 0) = ''1''" by code_simp
  note T = history_command_amended [where st = fresh]
  from T h have "main_step fresh ''history''
          = (fresh\<lparr>history_buf := history_buf fresh @ [''history'']\<rparr>,
             history_lines (history_buf fresh @ [''history'']), Continue)" by blast
  moreover from T h have "main_step fresh ''history -c''
          = (fresh\<lparr>history_buf := []\<rparr>, [Stdout (''history cleared'' @ newline)], Continue)"
    by blast
  ultimately show ?thesis using h d by (simp add: fresh_def history_lines_def)
qed

section \<open>The file follower at the command line\<close>

text \<open>
  Claim C8 at the input \<open>tail -f app.log\<close>, where \<open>app.log\<close> exists and holds the
  lines \<open>A\<close> and \<open>B\<close>. The line tokenizes to \<open>tail\<close>, \<open>-f\<close>, \<open>app.log\<close>, and the
  \<open>tail\<close> branch calls the follower. The follower opens \<open>a[1]\<close>, which is the flag
  \<open>-f\<close> itself: with no file of that name it reports that the file cannot be opened
  and returns without printing \<open>A\<close> or \<open>B\<close>; with a file named \<open>-f\<close> in the
  directory it follows that file and never reads \<open>app.log\<close>.
\<close>

theorem tailf_opens_flag:
  "split_args ''tail -f app.log'' = [''tail'', ''-f'', ''app.log'']
   \<and> tail_follows [''tail'', ''-f'', ''app.log'']
   \<and> log_files ''app.log'' = Some (''A'' @ newline @ ''B'' @ newline)
   \<and> cmd_tailf log_files [''tail'', ''-f'', ''app.log'']
       = Returned [Stderr (colorize RED (''tail -f: cannot open file'' @ newline))]
   \<and> cmd_tailf (log_files(''-f'' \<mapsto> ''X'' @ newline)) [''tail'', ''-f'', ''app.log'']
       = Following ''-f'' 0 [Stdout (''X'' @ newline)]"
  by code_simp

section \<open>Facts about the expression evaluator\<close>

lemma skip_space_ws: "(\<forall>c\<in>set sp. isspace c) \<Longrightarrow> skip_space (sp @ x) = skip_space x"
  by (simp add: skip_space_def dropWhile_append)

lemma skip_space_Cons: "\<not> isspace c \<Longrightarrow> skip_space (c # x) = c # x"
  by (simp add: skip_space_def)

lemma skip_space_idem [simp]: "skip_space (skip_space x) = skip_space x"
  by (simp add: skip_space_def dropWhile_idem)

lemma not_space_ops [simp]:
  "\<not> isspace CHR ''+''" "\<not> isspace CHR ''-''" "\<not> isspace CHR ''*''" "\<not> isspace CHR ''/''"
  "\<not> isspace CHR ''(''" "\<not> isspace CHR '')''"
  by (simp_all add: isspace_def)

lemma at_char_Cons [simp]: "at_char c (x # xs) = (x = c)"
  by (simp add: at_char_def)

lemma at_char_Nil [simp]: "\<not> at_char c []"
  by (simp add: at_char_def)

lemma term_loop_stop: "stop_term r \<Longrightarrow> term_loop ops v r = (v, skip_space r)"
  by (subst term_loop.simps) (simp add: stop_term_def Let_def)

lemma expr_loop_stop: "stop_expr r \<Longrightarrow> expr_loop ops v r = (v, skip_space r)"
  by (subst expr_loop.simps) (simp add: stop_expr_def Let_def)

lemma term_loop_skip: "term_loop ops v (skip_space r) = term_loop ops v r"
  by (subst term_loop.simps [of ops v "skip_space r"], subst term_loop.simps [of ops v r]) simp

lemma expr_loop_skip: "expr_loop ops v (skip_space r) = expr_loop ops v r"
  by (subst expr_loop.simps [of ops v "skip_space r"], subst expr_loop.simps [of ops v r]) simp

lemma term_loop_mul:
  "(\<forall>c\<in>set sp. isspace c) \<Longrightarrow>
   term_loop ops v (sp @ CHR ''*'' # x)
     = (let (w, s2) = parse_number ops x in term_loop ops (d_mul ops v w) s2)"
  by (subst term_loop.simps) (simp add: skip_space_ws skip_space_Cons)

lemma term_loop_div:
  "(\<forall>c\<in>set sp. isspace c) \<Longrightarrow>
   term_loop ops v (sp @ CHR ''/'' # x)
     = (let (w, s2) = parse_number ops x in term_loop ops (d_div ops v w) s2)"
  by (subst term_loop.simps) (simp add: skip_space_ws skip_space_Cons)

lemma expr_loop_add:
  "(\<forall>c\<in>set sp. isspace c) \<Longrightarrow>
   expr_loop ops v (sp @ CHR ''+'' # x)
     = (let (w, s2) = parse_term ops x in expr_loop ops (d_add ops v w) s2)"
  by (subst expr_loop.simps) (simp add: skip_space_ws skip_space_Cons)

lemma expr_loop_sub:
  "(\<forall>c\<in>set sp. isspace c) \<Longrightarrow>
   expr_loop ops v (sp @ CHR ''-'' # x)
     = (let (w, s2) = parse_term ops x in expr_loop ops (d_sub ops v w) s2)"
  by (subst expr_loop.simps) (simp add: skip_space_ws skip_space_Cons)

lemma parse_number_ws:
  "(\<forall>c\<in>set sp. isspace c) \<Longrightarrow> parse_number ops (sp @ x) = parse_number ops x"
  by (subst parse_number.simps [of ops "sp @ x"], subst parse_number.simps [of ops x])
    (simp add: skip_space_ws)

lemma parse_term_ws:
  "(\<forall>c\<in>set sp. isspace c) \<Longrightarrow> parse_term ops (sp @ x) = parse_term ops x"
  by (simp add: parse_term.simps parse_number_ws)

lemma follower_ws_op:
  "(\<forall>c\<in>set sp. isspace c) \<Longrightarrow> c \<in> set ''+-*/)'' \<Longrightarrow> follower (sp @ c # x)"
  by (cases sp) (auto simp: follower_def)

lemma stop_term_ws_op:
  "(\<forall>c\<in>set sp. isspace c) \<Longrightarrow> c \<in> set ''+-)'' \<Longrightarrow> stop_term (sp @ c # x)"
  by (auto simp: stop_term_def skip_space_ws skip_space_Cons)

lemma parse_literal:
  assumes "float_literal ops lit" and "follower r"
  shows "parse_number ops (sign_text sg @ lit @ r)
         = (d_mul ops (sign_value ops sg) (fst (strtod ops lit)), r)"
proof -
  from assms(1) obtain c cs where lit: "lit = c # cs" and c: "\<not> isspace c"
    "c \<noteq> CHR ''+''" "c \<noteq> CHR ''-''" "c \<noteq> CHR ''(''"
    by (cases lit) (auto simp: float_literal_def)
  from assms have st: "strtod ops (lit @ r) = (fst (strtod ops lit), length lit)"
    by (simp add: float_literal_def)
  have rs: "read_sign ops (skip_space (sign_text sg @ lit @ r)) = (sign_value ops sg, lit @ r)"
    using c by (cases sg) (simp_all add: lit skip_space_Cons read_sign_def)
  have sk: "skip_space (lit @ r) = lit @ r" "\<not> at_char CHR ''('' (lit @ r)"
    using c by (simp_all add: lit skip_space_Cons)
  have ne: "lit \<noteq> []" by (simp add: lit)
  show ?thesis
    by (subst parse_number.simps) (simp add: rs sk st ne Let_def)
qed

lemma parse_paren:
  assumes "parse_expression ops (x @ CHR '')'' # r) = (v, CHR '')'' # r)"
  shows "parse_number ops (sign_text sg @ CHR ''('' # x @ CHR '')'' # r)
         = (d_mul ops (sign_value ops sg) v, r)"
proof -
  have rs: "read_sign ops (skip_space (sign_text sg @ CHR ''('' # x @ CHR '')'' # r))
            = (sign_value ops sg, CHR ''('' # x @ CHR '')'' # r)"
    by (cases sg) (simp_all add: skip_space_Cons read_sign_def)
  show ?thesis
    by (subst parse_number.simps) (simp add: rs skip_space_Cons assms)
qed

lemma parser_follows_grammar:
  assumes sp: "\<forall>c\<in>set sp. isspace c"
  shows "wf_expr ops e \<Longrightarrow> follower r \<Longrightarrow> stop_term r \<Longrightarrow>
           parse_expression ops (render_expr sp e @ r) = expr_loop ops (eval_expr ops e) r"
    and "wf_term ops t \<Longrightarrow> follower r \<Longrightarrow>
           parse_term ops (render_term sp t @ r) = term_loop ops (eval_term ops t) r"
    and "wf_number ops n \<Longrightarrow> follower r \<Longrightarrow>
           parse_number ops (render_number sp n @ r) = (eval_number ops n, r)"
proof (induction e and t and n arbitrary: r and r and r)
  case (ETerm t)
  then have "parse_term ops (render_term sp t @ r) = (eval_term ops t, skip_space r)"
    by (simp add: term_loop_stop)
  then show ?case
    by (simp add: parse_expression.simps expr_loop_skip)
next
  case (EAdd e t)
  let ?r' = "sp @ CHR ''+'' # sp @ render_term sp t @ r"
  have "parse_expression ops (render_expr sp e @ ?r') = expr_loop ops (eval_expr ops e) ?r'"
    using EAdd.prems sp by (intro EAdd.IH(1)) (simp_all add: follower_ws_op stop_term_ws_op)
  moreover have "parse_term ops (sp @ render_term sp t @ r) = (eval_term ops t, skip_space r)"
    using EAdd.prems sp EAdd.IH(2) [of r] by (simp add: parse_term_ws term_loop_stop)
  ultimately show ?case
    using sp by (simp add: expr_loop_add expr_loop_skip)
next
  case (ESub e t)
  let ?r' = "sp @ CHR ''-'' # sp @ render_term sp t @ r"
  have "parse_expression ops (render_expr sp e @ ?r') = expr_loop ops (eval_expr ops e) ?r'"
    using ESub.prems sp by (intro ESub.IH(1)) (simp_all add: follower_ws_op stop_term_ws_op)
  moreover have "parse_term ops (sp @ render_term sp t @ r) = (eval_term ops t, skip_space r)"
    using ESub.prems sp ESub.IH(2) [of r] by (simp add: parse_term_ws term_loop_stop)
  ultimately show ?case
    using sp by (simp add: expr_loop_sub expr_loop_skip)
next
  case (TNumber n)
  then show ?case by (simp add: parse_term.simps)
next
  case (TMul t n)
  let ?r' = "sp @ CHR ''*'' # sp @ render_number sp n @ r"
  have "parse_term ops (render_term sp t @ ?r') = term_loop ops (eval_term ops t) ?r'"
    using TMul.prems sp by (intro TMul.IH(1)) (simp_all add: follower_ws_op)
  moreover have "parse_number ops (sp @ render_number sp n @ r) = (eval_number ops n, r)"
    using TMul.prems sp TMul.IH(2) [of r] by (simp add: parse_number_ws)
  ultimately show ?case
    using sp by (simp add: term_loop_mul)
next
  case (TDiv t n)
  let ?r' = "sp @ CHR ''/'' # sp @ render_number sp n @ r"
  have "parse_term ops (render_term sp t @ ?r') = term_loop ops (eval_term ops t) ?r'"
    using TDiv.prems sp by (intro TDiv.IH(1)) (simp_all add: follower_ws_op)
  moreover have "parse_number ops (sp @ render_number sp n @ r) = (eval_number ops n, r)"
    using TDiv.prems sp TDiv.IH(2) [of r] by (simp add: parse_number_ws)
  ultimately show ?case
    using sp by (simp add: term_loop_div)
next
  case (NLiteral sg lit)
  then show ?case by (simp add: parse_literal)
next
  case (NParen sg e)
  have f: "follower (CHR '')'' # r)" by (simp add: follower_def)
  have st: "stop_term (CHR '')'' # r)" "stop_expr (CHR '')'' # r)"
    by (simp_all add: stop_term_def stop_expr_def skip_space_Cons)
  have "parse_expression ops (render_expr sp e @ CHR '')'' # r)
        = expr_loop ops (eval_expr ops e) (CHR '')'' # r)"
    using NParen.prems f st by (intro NParen.IH) simp_all
  then have "parse_expression ops (render_expr sp e @ CHR '')'' # r)
        = (eval_expr ops e, CHR '')'' # r)"
    using st by (simp add: expr_loop_stop skip_space_Cons)
  then show ?case by (simp add: parse_paren)
qed


lemma digits_not_follow:
  "follower r \<Longrightarrow> takeWhile is_digit r = [] \<and> dropWhile is_digit r = r
     \<and> \<not> at_char CHR ''.'' r \<and> \<not> at_char CHR ''e'' r \<and> \<not> at_char CHR ''E'' r"
  by (cases r) (auto simp: follower_def is_digit_def isspace_def)

lemma strtod_dec_integer:
  assumes ne: "ds \<noteq> []" and dg: "\<forall>c\<in>set ds. is_digit c" and fo: "follower r"
  shows "strtod_dec (ds @ r) = (mk_finite False (of_nat (digits_value ds)), length ds)"
proof -
  from ne obtain c cs where ds: "ds = c # cs" by (cases ds) auto
  from dg ds have c: "is_digit c" by simp
  then have nsp: "\<not> isspace c" and nsg: "c \<noteq> CHR ''+''" "c \<noteq> CHR ''-''"
    by (auto simp: is_digit_def isspace_def)
  have sk: "skip_space (ds @ r) = ds @ r" using nsp by (simp add: ds skip_space_Cons)
  have sg: "\<not> at_char CHR ''+'' (ds @ r)" "\<not> at_char CHR ''-'' (ds @ r)"
    using nsg by (simp_all add: ds)
  note fr = digits_not_follow [OF fo]
  have ip: "takeWhile is_digit (ds @ r) = ds" "dropWhile is_digit (ds @ r) = r"
    using dg fr by (simp_all add: takeWhile_append2 dropWhile_append2)
  show ?thesis
    using ne fr by (simp add: strtod_dec_def sk sg ip Let_def)
qed

lemma float_literal_integer:
  assumes "ds \<noteq> []" and "\<forall>c\<in>set ds. is_digit c"
  shows "float_literal binary64 ds"
proof -
  have f0: "follower []" by (simp add: follower_def)
  have v: "strtod_dec ds = (mk_finite False (of_nat (digits_value ds)), length ds)"
    using strtod_dec_integer [OF assms f0] by simp
  from assms obtain c cs where ds: "ds = c # cs" and c: "is_digit c" by (cases ds) auto
  from c have "\<not> isspace c" "c \<notin> set ''+-(''"
    by (auto simp: is_digit_def isspace_def)
  with assms v show ?thesis
    by (simp add: float_literal_def binary64_def ds [symmetric] strtod_dec_integer)
      (simp add: ds)
qed

lemma float_literal_digit:
  "float_literal binary64 ''1''" "float_literal binary64 ''2''" "float_literal binary64 ''3''"
  "float_literal binary64 ''4''" "float_literal binary64 ''8''"
  by (rule float_literal_integer; simp add: is_digit_def)+

section \<open>Claims about the expression evaluator\<close>

text \<open>
  Claim C6. The evaluator implements the grammar: for every well-formed tree of the
  grammar, written with any whitespace around its binary operators and followed by a
  text that does not continue the expression, \<open>parse_expression\<close> returns the value of
  the tree, with additions and subtractions, and multiplications and divisions, applied
  from left to right and the latter binding tighter, and leaves the cursor after the
  expression. This holds for every double arithmetic and every \<open>strtod\<close>. In binary64,
  \<open>2 + 3 * 4\<close> evaluates to 14, \<open>(2 + 3) * 4\<close> to 20, \<open>-5 + 2\<close> to -3, and \<open>1 / 0\<close>
  to positive infinity, which is a value and not an error.
\<close>

theorem evaluator_follows_grammar:
  "((\<forall>c\<in>set sp. isspace c) \<and> wf_expr ops e \<and> follower r \<and> stop_term r \<and> stop_expr r
      \<longrightarrow> parse_expression ops (render_expr sp e @ r) = (eval_expr ops e, skip_space r))
   \<and> parse_expression binary64 ''2 + 3 * 4'' = (Finite 14, [])
   \<and> parse_expression binary64 ''(2 + 3) * 4'' = (Finite 20, [])
   \<and> parse_expression binary64 ''-5 + 2'' = (Finite (- 3), [])
   \<and> parse_expression binary64 ''1 / 0'' = (PosInf, []) \<and> is_inf PosInf"
proof (intro conjI impI)
  assume a: "(\<forall>c\<in>set sp. isspace c) \<and> wf_expr ops e \<and> follower r \<and> stop_term r \<and> stop_expr r"
  then have "parse_expression ops (render_expr sp e @ r) = expr_loop ops (eval_expr ops e) r"
    by (intro parser_follows_grammar(1)) simp_all
  with a show "parse_expression ops (render_expr sp e @ r) = (eval_expr ops e, skip_space r)"
    by (simp add: expr_loop_stop)
next
  show "parse_expression binary64 ''2 + 3 * 4'' = (Finite 14, [])" by code_simp
next
  show "parse_expression binary64 ''(2 + 3) * 4'' = (Finite 20, [])" by code_simp
next
  show "parse_expression binary64 ''-5 + 2'' = (Finite (- 3), [])" by code_simp
next
  show "parse_expression binary64 ''1 / 0'' = (PosInf, [])" by code_simp
next
  show "is_inf PosInf" by simp
qed

text \<open>
  The theorem at the trees of \<open>2 + 3 * 4\<close> (the product is the right operand of the
  sum), of \<open>(2 + 3) * 4\<close> (the parenthesised sum is the left operand of the product) and
  of \<open>8-2-1\<close> followed by a closing parenthesis (the left subtraction is done first).
\<close>

theorem evaluator_follows_grammar_witness:
  "render_expr '' '' tree_2_plus_3_times_4 = ''2 + 3 * 4''
   \<and> wf_expr binary64 tree_2_plus_3_times_4
   \<and> parse_expression binary64 ''2 + 3 * 4'' = (eval_expr binary64 tree_2_plus_3_times_4, [])
   \<and> eval_expr binary64 tree_2_plus_3_times_4
       = dbl_add (Finite 2) (dbl_mul (Finite 3) (Finite 4))
   \<and> render_expr '' '' tree_paren_2_plus_3_times_4 = ''(2 + 3) * 4''
   \<and> wf_expr binary64 tree_paren_2_plus_3_times_4
   \<and> parse_expression binary64 ''(2 + 3) * 4''
       = (eval_expr binary64 tree_paren_2_plus_3_times_4, [])
   \<and> eval_expr binary64 tree_paren_2_plus_3_times_4
       = dbl_mul (dbl_add (Finite 2) (Finite 3)) (Finite 4)
   \<and> render_expr [] tree_8_minus_2_minus_1 = ''8-2-1''
   \<and> wf_expr binary64 tree_8_minus_2_minus_1
   \<and> parse_expression binary64 (''8-2-1'' @ '' )'')
       = (eval_expr binary64 tree_8_minus_2_minus_1, '')'')
   \<and> eval_expr binary64 tree_8_minus_2_minus_1
       = dbl_sub (dbl_sub (Finite 8) (Finite 2)) (Finite 1)"
proof -
  have sp: "\<forall>c\<in>set '' ''. isspace c" "\<forall>c\<in>set []. isspace c" by simp_all
  have f0: "follower [] \<and> stop_term [] \<and> stop_expr []"
    by (simp add: follower_def stop_term_def stop_expr_def skip_space_def)
  have f1: "follower '' )'' \<and> stop_term '' )'' \<and> stop_expr '' )''"
    by (simp add: follower_def stop_term_def stop_expr_def skip_space_def)
  have r1: "render_expr '' '' tree_2_plus_3_times_4 = ''2 + 3 * 4''"
    by (simp add: tree_2_plus_3_times_4_def)
  have w1: "wf_expr binary64 tree_2_plus_3_times_4"
    by (simp add: tree_2_plus_3_times_4_def float_literal_digit)
  have p1: "parse_expression binary64 (render_expr '' '' tree_2_plus_3_times_4 @ [])
            = (eval_expr binary64 tree_2_plus_3_times_4, skip_space [])"
    using evaluator_follows_grammar [where sp = "'' ''" and ops = binary64
        and e = tree_2_plus_3_times_4 and r = "[]", THEN conjunct1] sp w1 f0 by blast
  have e1: "eval_expr binary64 tree_2_plus_3_times_4
            = dbl_add (Finite 2) (dbl_mul (Finite 3) (Finite 4))"
    by code_simp
  have r2: "render_expr '' '' tree_paren_2_plus_3_times_4 = ''(2 + 3) * 4''"
    by (simp add: tree_paren_2_plus_3_times_4_def)
  have w2: "wf_expr binary64 tree_paren_2_plus_3_times_4"
    by (simp add: tree_paren_2_plus_3_times_4_def float_literal_digit)
  have p2: "parse_expression binary64 (render_expr '' '' tree_paren_2_plus_3_times_4 @ [])
            = (eval_expr binary64 tree_paren_2_plus_3_times_4, skip_space [])"
    using evaluator_follows_grammar [where sp = "'' ''" and ops = binary64
        and e = tree_paren_2_plus_3_times_4 and r = "[]", THEN conjunct1] sp w2 f0 by blast
  have e2: "eval_expr binary64 tree_paren_2_plus_3_times_4
            = dbl_mul (dbl_add (Finite 2) (Finite 3)) (Finite 4)"
    by code_simp
  have r3: "render_expr [] tree_8_minus_2_minus_1 = ''8-2-1''"
    by (simp add: tree_8_minus_2_minus_1_def)
  have w3: "wf_expr binary64 tree_8_minus_2_minus_1"
    by (simp add: tree_8_minus_2_minus_1_def float_literal_digit)
  have p3: "parse_expression binary64 (render_expr [] tree_8_minus_2_minus_1 @ '' )'')
            = (eval_expr binary64 tree_8_minus_2_minus_1, skip_space '' )'')"
    using evaluator_follows_grammar [where sp = "[]" and ops = binary64
        and e = tree_8_minus_2_minus_1 and r = "'' )''", THEN conjunct1] sp w3 f1 by blast
  have e3: "eval_expr binary64 tree_8_minus_2_minus_1
            = dbl_sub (dbl_sub (Finite 8) (Finite 2)) (Finite 1)"
    by code_simp
  have sk: "skip_space [] = []" "skip_space '' )'' = '')''"
    by (simp_all add: skip_space_def)
  from r1 w1 p1 e1 r2 w2 p2 e2 r3 w3 p3 e3 sk show ?thesis by simp
qed





end
